theory Spec2Isabelle
  imports Main
begin

section \<open>Thrown values and log entries\<close>

text \<open>
  What a JavaScript \<^verbatim>\<open>catch (error)\<close> block of the two services can receive from a
  collaborator: an \<^verbatim>\<open>Error\<close> object with its message, or any other thrown value. The
  handlers read \<^verbatim>\<open>error instanceof Error ? error.message : 'Unknown error'\<close>.
\<close>

datatype thrown = JsError string | JsNonError

definition errorMessage :: "thrown \<Rightarrow> string" where
  "errorMessage e = (case e of JsError m \<Rightarrow> m | JsNonError \<Rightarrow> ''Unknown error'')"

datatype log_level = LDebug | LWarn | LError

section \<open>The key-value store behind the rate limiter\<close>

text \<open>
  The store of \<^verbatim>\<open>rate-limit.guard.ts\<close> is a Redis server reached through the injected
  client \<^verbatim>\<open>this.redis\<close>. The guard uses three of its operations: \<^verbatim>\<open>get(key)\<close>,
  \<^verbatim>\<open>ttl(key)\<close> and the transaction \<^verbatim>\<open>multi().incr(key).expire(key, s).exec()\<close>. The client is
  a parameter of the guard: a record of the three operations over a store state \<open>'s\<close>,
  each resolving (\<open>Inr\<close>) or rejecting (\<open>Inl\<close>) and returning the next store state.
\<close>

datatype reply = RInt int | RErr string

record 's redis_client =
  rc_get :: "string \<Rightarrow> 's \<Rightarrow> (thrown + string option) \<times> 's"
  rc_ttl :: "string \<Rightarrow> 's \<Rightarrow> (thrown + int) \<times> 's"
  rc_incr_expire :: "string \<Rightarrow> int \<Rightarrow> 's \<Rightarrow> (thrown + reply list) \<times> 's"

subsection \<open>Decimal strings\<close>

definition is_digit :: "char \<Rightarrow> bool" where
  "is_digit c = (let n = (of_char c :: nat) in 48 \<le> n \<and> n \<le> 57)"

definition digit_val :: "char \<Rightarrow> nat" where
  "digit_val c = (of_char c :: nat) - 48"

definition digit_char :: "nat \<Rightarrow> char" where
  "digit_char d = ''0123456789'' ! d"

text \<open>The value of a string of digits, most significant first.\<close>

definition digits_to_nat :: "string \<Rightarrow> nat" where
  "digits_to_nat ds = foldl (\<lambda>acc c. 10 * acc + digit_val c) 0 ds"

function show_nat :: "nat \<Rightarrow> string" where
  "show_nat n = (if n < 10 then [digit_char n] else show_nat (n div 10) @ [digit_char (n mod 10)])"
  by pat_completeness auto
termination
  by (relation "measure id") auto

declare show_nat.simps [simp del]

definition show_int :: "int \<Rightarrow> string" where
  "show_int i = (if i < 0 then CHR ''-'' # show_nat (nat (- i)) else show_nat (nat i))"

subsection \<open>A Redis database with expiry\<close>

text \<open>
  The reference store follows the Redis command reference for the four commands the
  guard issues. An entry holds a string and, when it has a time to live, the absolute
  time in milliseconds at which it expires. Every command runs at a time \<open>now\<close>
  (milliseconds); an entry whose expiry time has passed is absent.
\<close>

record redis_entry =
  content :: string
  expire_at :: "int option"

type_synonym redis_db = "string \<Rightarrow> redis_entry option"

definition live :: "redis_db \<Rightarrow> int \<Rightarrow> string \<Rightarrow> redis_entry option" where
  "live db now k =
     (case db k of
        None \<Rightarrow> None
      | Some e \<Rightarrow>
          (case expire_at e of
             None \<Rightarrow> Some e
           | Some t \<Rightarrow> if t < now then None else Some e))"

text \<open>\<^verbatim>\<open>GET key\<close>: the string, or nil.\<close>

definition redis_GET :: "redis_db \<Rightarrow> int \<Rightarrow> string \<Rightarrow> string option" where
  "redis_GET db now k = map_option content (live db now k)"

text \<open>
  \<^verbatim>\<open>TTL key\<close>: \<open>-2\<close> when the key is absent, \<open>-1\<close> when it has no expiry, else the
  remaining time rounded to seconds.
\<close>

definition redis_TTL :: "redis_db \<Rightarrow> int \<Rightarrow> string \<Rightarrow> int" where
  "redis_TTL db now k =
     (case live db now k of
        None \<Rightarrow> - 2
      | Some e \<Rightarrow>
          (case expire_at e of
             None \<Rightarrow> - 1
           | Some t \<Rightarrow> (t - now + 500) div 1000))"

text \<open>
  The strict integer reading \<^verbatim>\<open>INCR\<close> applies to the stored string: an optional minus
  sign, digits without a leading zero, within the signed 64-bit range.
\<close>

definition LLONG_MAX :: int where
  "LLONG_MAX = 9223372036854775807"

definition string2ll :: "string \<Rightarrow> int option" where
  "string2ll s =
     (let (neg, ds) = (case s of c # r \<Rightarrow> if c = CHR ''-'' then (True, r) else (False, s)
                                | [] \<Rightarrow> (False, []))
      in if ds = [] \<or> \<not> list_all is_digit ds then None
         else if hd ds = CHR ''0'' \<and> (length ds > 1 \<or> neg) then None
         else let v = (if neg then - int (digits_to_nat ds) else int (digits_to_nat ds))
              in if v < - LLONG_MAX - 1 \<or> LLONG_MAX < v then None else Some v)"

text \<open>
  \<^verbatim>\<open>INCR key\<close>: an absent key is created holding \<open>1\<close> with no expiry; a present key
  keeps its expiry. A value that is not an integer, or the largest one, is an error
  reply and nothing changes.
\<close>

definition redis_INCR :: "redis_db \<Rightarrow> int \<Rightarrow> string \<Rightarrow> reply \<times> redis_db" where
  "redis_INCR db now k =
     (case live db now k of
        None \<Rightarrow> (RInt 1, db(k \<mapsto> \<lparr>content = show_int 1, expire_at = None\<rparr>))
      | Some e \<Rightarrow>
          (case string2ll (content e) of
             None \<Rightarrow> (RErr ''ERR value is not an integer or out of range'', db)
           | Some n \<Rightarrow>
               if n = LLONG_MAX then (RErr ''ERR increment or decrement would overflow'', db)
               else (RInt (n + 1), db(k \<mapsto> e\<lparr>content := show_int (n + 1)\<rparr>))))"

text \<open>
  \<^verbatim>\<open>EXPIRE key seconds\<close>, issued without the \<^verbatim>\<open>NX\<close> option: on a present key the expiry
  is set to \<open>now + seconds\<close> whether or not the key had one (a time that is not in
  the future deletes the key) and the reply is \<open>1\<close>; on an absent key the reply is \<open>0\<close>.
\<close>

definition redis_EXPIRE :: "redis_db \<Rightarrow> int \<Rightarrow> string \<Rightarrow> int \<Rightarrow> reply \<times> redis_db" where
  "redis_EXPIRE db now k seconds =
     (case live db now k of
        None \<Rightarrow> (RInt 0, db)
      | Some e \<Rightarrow>
          (let when = now + seconds * 1000
           in if when \<le> now then (RInt 1, db(k := None))
              else (RInt 1, db(k \<mapsto> e\<lparr>expire_at := Some when\<rparr>))))"

text \<open>
  \<^verbatim>\<open>MULTI; INCR key; EXPIRE key seconds; EXEC\<close>: both commands run one after the other
  with nothing in between; an error reply of one command does not stop the other.
\<close>

definition redis_MULTI_incr_expire :: "redis_db \<Rightarrow> int \<Rightarrow> string \<Rightarrow> int \<Rightarrow> reply list \<times> redis_db" where
  "redis_MULTI_incr_expire db now k seconds =
     (let (r1, db1) = redis_INCR db now k;
          (r2, db2) = redis_EXPIRE db1 now k seconds
      in ([r1, r2], db2))"

text \<open>The client of a reachable server at time \<open>now\<close>: every operation resolves.\<close>

definition redis_at :: "int \<Rightarrow> redis_db redis_client" where
  "redis_at now =
     \<lparr> rc_get = (\<lambda>k db. (Inr (redis_GET db now k), db)),
       rc_ttl = (\<lambda>k db. (Inr (redis_TTL db now k), db)),
       rc_incr_expire = (\<lambda>k s db. (case redis_MULTI_incr_expire db now k s of
                                     (rs, db') \<Rightarrow> (Inr rs, db'))) \<rparr>"

text \<open>
  The same server behind a connection on which the operations named by \<open>down\<close> reject
  (a connection failure): the operation rejects with an error and the database is as
  it was.
\<close>

datatype redis_op = OpGet | OpTtl | OpExec

definition connection_error :: thrown where
  "connection_error = JsError ''Connection is closed.''"

definition redis_faulty :: "(redis_op \<Rightarrow> bool) \<Rightarrow> int \<Rightarrow> redis_db redis_client" where
  "redis_faulty down now =
     \<lparr> rc_get = (\<lambda>k db. if down OpGet then (Inl connection_error, db)
                         else rc_get (redis_at now) k db),
       rc_ttl = (\<lambda>k db. if down OpTtl then (Inl connection_error, db)
                         else rc_ttl (redis_at now) k db),
       rc_incr_expire = (\<lambda>k s db. if down OpExec then (Inl connection_error, db)
                                   else rc_incr_expire (redis_at now) k s db) \<rparr>"

section \<open>The rate-limit guard\<close>

text \<open>
  \<^verbatim>\<open>parseInt(s, 10)\<close>: leading white space is skipped, then an optional sign, then the
  longest run of digits; without a digit the result is \<^verbatim>\<open>NaN\<close>. The result is a
  JavaScript number; it is the integer itself below \<open>2 ^ 53\<close>, and the model keeps the
  exact integer above that too, where JavaScript rounds to the nearest double. The white
  space skipped is the ASCII one (space, tab, line feed, vertical tab, form feed,
  carriage return); the guard only parses what the store returned for a counter, digits
  written by \<^verbatim>\<open>INCR\<close>.
\<close>

datatype jsnum = NaN | Num int

definition is_space :: "char \<Rightarrow> bool" where
  "is_space c = (let n = (of_char c :: nat) in n = 32 \<or> (9 \<le> n \<and> n \<le> 13))"

definition parseInt10 :: "string \<Rightarrow> jsnum" where
  "parseInt10 s =
     (let t = dropWhile is_space s;
          (neg, u) = (case t of
                        c # r \<Rightarrow> if c = CHR ''-'' then (True, r)
                                 else if c = CHR ''+'' then (False, r) else (False, t)
                      | [] \<Rightarrow> (False, []));
          ds = takeWhile is_digit u
      in if ds = [] then NaN
         else Num (if neg then - int (digits_to_nat ds) else int (digits_to_nat ds)))"

record RateLimitOptions =
  opt_limit :: int
  opt_windowMs :: int

text \<open>The body of the \<^verbatim>\<open>HttpException\<close> thrown with status 429.\<close>

record HttpException =
  statusCode :: int
  exc_message :: string
  exc_limit :: int
  exc_current :: jsnum
  remainingRequests :: int
  nextValidRequestTime :: int

definition TOO_MANY_REQUESTS :: int where
  "TOO_MANY_REQUESTS = 429"

text \<open>
  The guard's log lines: \<^verbatim>\<open>logger.warn\<close> on a rejection (hashed identity, route, count,
  limit) and \<^verbatim>\<open>logger.error\<close> on a store failure (the message read from the error).
\<close>

datatype guard_log =
    RateLimitExceeded string string jsnum int
  | RateLimitCheckError string

text \<open>
  \<^verbatim>\<open>current ? parseInt(current, 10) : 0\<close>: \<^verbatim>\<open>null\<close> and the empty string are falsy.
\<close>

definition currentCount_of :: "string option \<Rightarrow> jsnum" where
  "currentCount_of current =
     (case current of
        None \<Rightarrow> Num 0
      | Some s \<Rightarrow> if s = [] then Num 0 else parseInt10 s)"

text \<open>\<^verbatim>\<open>currentCount >= limit\<close>; a comparison with \<^verbatim>\<open>NaN\<close> is false.\<close>

definition count_ge :: "jsnum \<Rightarrow> int \<Rightarrow> bool" where
  "count_ge c lim = (case c of NaN \<Rightarrow> False | Num n \<Rightarrow> lim \<le> n)"

definition rate_limit_key :: "string \<Rightarrow> string \<Rightarrow> string" where
  "rate_limit_key hashedIp route = ''ratelimit:'' @ hashedIp @ '':'' @ route"

text \<open>
  What the \<^verbatim>\<open>try\<close> block of \<^verbatim>\<open>handleRateLimit\<close> can throw: the guard's own
  \<^verbatim>\<open>HttpException\<close>, or whatever a store operation rejected with.
\<close>

datatype guard_thrown = OwnException HttpException | StoreFailure thrown

text \<open>
  The \<^verbatim>\<open>try\<close> block. \<open>now\<close> is \<^verbatim>\<open>Date.now()\<close>. The result is the value returned or the
  value thrown, with the store state and the lines logged so far.
\<close>

definition handleRateLimit_try ::
  "'s redis_client \<Rightarrow> int \<Rightarrow> string \<Rightarrow> string \<Rightarrow> RateLimitOptions \<Rightarrow> 's
     \<Rightarrow> (guard_thrown + bool) \<times> 's \<times> guard_log list" where
  "handleRateLimit_try redis now hashedIp route options st =
     (let lim = opt_limit options;
          windowSeconds = opt_windowMs options div 1000;
          k = rate_limit_key hashedIp route
      in case rc_get redis k st of
           (Inl e, st1) \<Rightarrow> (Inl (StoreFailure e), st1, [])
         | (Inr current, st1) \<Rightarrow>
             (let currentCount = currentCount_of current
              in if count_ge currentCount lim then
                   (case rc_ttl redis k st1 of
                      (Inl e, st2) \<Rightarrow> (Inl (StoreFailure e), st2, [])
                    | (Inr ttl, st2) \<Rightarrow>
                        (Inl (OwnException
                               \<lparr> statusCode = TOO_MANY_REQUESTS,
                                 exc_message = ''Too many requests, please try again later.'',
                                 exc_limit = lim,
                                 exc_current = currentCount,
                                 remainingRequests = 0,
                                 nextValidRequestTime = now + ttl * 1000 \<rparr>),
                         st2,
                         [RateLimitExceeded hashedIp route currentCount lim]))
                 else
                   (case rc_incr_expire redis k windowSeconds st1 of
                      (Inl e, st2) \<Rightarrow> (Inl (StoreFailure e), st2, [])
                    | (Inr _, st2) \<Rightarrow> (Inr True, st2, []))))"

text \<open>
  \<^verbatim>\<open>handleRateLimit\<close>: the \<^verbatim>\<open>try\<close> block under its \<^verbatim>\<open>catch\<close>. The guard's own exception
  is thrown again; any other thrown value is logged and the request is allowed.
\<close>

definition handleRateLimit ::
  "'s redis_client \<Rightarrow> int \<Rightarrow> string \<Rightarrow> string \<Rightarrow> RateLimitOptions \<Rightarrow> 's
     \<Rightarrow> (HttpException + bool) \<times> 's \<times> guard_log list" where
  "handleRateLimit redis now hashedIp route options st =
     (case handleRateLimit_try redis now hashedIp route options st of
        (Inr b, st', lg) \<Rightarrow> (Inr b, st', lg)
      | (Inl (OwnException ex), st', lg) \<Rightarrow> (Inl ex, st', lg)
      | (Inl (StoreFailure e), st', lg) \<Rightarrow>
          (Inr True, st', lg @ [RateLimitCheckError (errorMessage e)]))"

section \<open>JavaScript values, the object heap and the JSON round trip\<close>

text \<open>
  A value is a primitive or a reference to an object or array on the heap; two
  references to the same address are the same mutable object. Numbers are the integers
  (the cache never computes with them); a symbol carries its description. There are no
  function values, so no property of an object is callable. The heap is the list of the
  objects allocated so far: the address of an object is its index, and allocation
  appends.
\<close>

datatype jsval =
    JUndefined | JNull | JBool bool | JNum int | JStr string | JSymbol string | JRef nat

datatype jsobj = JObject "(string \<times> jsval) list" | JArray "jsval list"

type_synonym heap = "jsobj list"

text \<open>
  The text \<^verbatim>\<open>JSON.stringify\<close> produces is modelled by the tree it denotes, which is what
  \<^verbatim>\<open>JSON.parse\<close> reads back.
\<close>

datatype json =
    JsNull | JsBool bool | JsNum int | JsStr string
  | JsArr "json list" | JsObj "(string \<times> json) list"

text \<open>The values \<^verbatim>\<open>JSON.stringify\<close> leaves out of an object: \<^verbatim>\<open>undefined\<close> and symbols.\<close>

definition json_omits :: "jsval \<Rightarrow> bool" where
  "json_omits v = (case v of JUndefined \<Rightarrow> True | JSymbol d \<Rightarrow> True | _ \<Rightarrow> False)"

text \<open>
  \<^verbatim>\<open>JSON.stringify\<close> from a value: it follows references through the heap, keeping the
  stack of the objects it is inside of; meeting one of them again is the
  \<^verbatim>\<open>TypeError\<close> for a circular structure (\<open>None\<close>). A property whose value is
  \<^verbatim>\<open>undefined\<close> or a symbol is left out of an object; such an array element is written
  \<^verbatim>\<open>null\<close>.
\<close>

function serialize :: "heap \<Rightarrow> nat list \<Rightarrow> jsval \<Rightarrow> json option" where
  "serialize h stk JUndefined = Some JsNull"
| "serialize h stk JNull = Some JsNull"
| "serialize h stk (JBool b) = Some (JsBool b)"
| "serialize h stk (JNum n) = Some (JsNum n)"
| "serialize h stk (JStr s) = Some (JsStr s)"
| "serialize h stk (JSymbol d) = Some JsNull"
| "serialize h stk (JRef a) =
     (if a \<in> set stk \<or> length h \<le> a then None
      else (case h ! a of
              JArray vs \<Rightarrow> map_option JsArr (those (map (serialize h (a # stk)) vs))
            | JObject fs \<Rightarrow>
                map_option JsObj
                  (those (map (\<lambda>(k, v). map_option (Pair k) (serialize h (a # stk) v))
                              (filter (\<lambda>(k, v). \<not> json_omits v) fs)))))"
  by pat_completeness auto
termination
proof (relation "measure (\<lambda>(h, stk, v). card ({..<length h} - set stk))")
  show "wf (measure (\<lambda>(h, stk, v). card ({..<length h} - set stk)))"
    by simp
next
  fix h :: heap and stk :: "nat list" and a :: nat
  assume "\<not> (a \<in> set stk \<or> length h \<le> a)"
  then have "a \<in> {..<length h} - set stk"
    by simp
  then have "card ({..<length h} - set stk - {a}) < card ({..<length h} - set stk)"
    by (intro card_Diff1_less) simp_all
  moreover have "{..<length h} - set (a # stk) = {..<length h} - set stk - {a}"
    by auto
  ultimately have less: "card ({..<length h} - set (a # stk)) < card ({..<length h} - set stk)"
    by simp
  {
    fix x
    show "((h, a # stk, x), h, stk, JRef a)
            \<in> measure (\<lambda>(h, stk, v). card ({..<length h} - set stk))"
      using less by simp
  }
  {
    fix x :: "string \<times> jsval" and y
    show "((h, a # stk, y), h, stk, JRef a)
            \<in> measure (\<lambda>(h, stk, v). card ({..<length h} - set stk))"
      using less by simp
  }
qed

declare serialize.simps(7) [simp del]

text \<open>
  \<^verbatim>\<open>JSON.parse\<close> from the tree: every array and object of the tree is a new object on
  the heap, the parts before the whole.
\<close>

fun materialize :: "json \<Rightarrow> heap \<Rightarrow> jsval \<times> heap"
  and materialize_list :: "json list \<Rightarrow> heap \<Rightarrow> jsval list \<times> heap"
  and materialize_fields :: "(string \<times> json) list \<Rightarrow> heap \<Rightarrow> (string \<times> jsval) list \<times> heap"
  where
  "materialize JsNull h = (JNull, h)"
| "materialize (JsBool b) h = (JBool b, h)"
| "materialize (JsNum n) h = (JNum n, h)"
| "materialize (JsStr s) h = (JStr s, h)"
| "materialize (JsArr js) h =
     (case materialize_list js h of (vs, h') \<Rightarrow> (JRef (length h'), h' @ [JArray vs]))"
| "materialize (JsObj fs) h =
     (case materialize_fields fs h of (fs', h') \<Rightarrow> (JRef (length h'), h' @ [JObject fs']))"
| "materialize_list [] h = ([], h)"
| "materialize_list (j # js) h =
     (case materialize j h of (v, h1) \<Rightarrow>
        (case materialize_list js h1 of (vs, h2) \<Rightarrow> (v # vs, h2)))"
| "materialize_fields [] h = ([], h)"
| "materialize_fields ((k, j) # fs) h =
     (case materialize j h of (v, h1) \<Rightarrow>
        (case materialize_fields fs h1 of (fs', h2) \<Rightarrow> ((k, v) # fs', h2)))"

text \<open>
  \<^verbatim>\<open>JSON.parse(JSON.stringify(value))\<close>: the deep copy both \<^verbatim>\<open>set\<close> and \<^verbatim>\<open>get\<close> make of
  an object.
\<close>

definition json_clone :: "heap \<Rightarrow> jsval \<Rightarrow> thrown + (jsval \<times> heap)" where
  "json_clone h v =
     (case serialize h [] v of
        None \<Rightarrow> Inl (JsError ''Converting circular structure to JSON'')
      | Some j \<Rightarrow> Inr (materialize j h))"

text \<open>
  \<open>cells_kept lo hi h g\<close>: the heap \<open>g\<close> has the addresses below \<open>hi\<close>, and holds at
  each address from \<open>lo\<close> up to \<open>hi\<close> the object \<open>h\<close> holds there. Everywhere else it
  may differ from \<open>h\<close>: objects written to, objects allocated since.
\<close>

definition cells_kept :: "nat \<Rightarrow> nat \<Rightarrow> heap \<Rightarrow> heap \<Rightarrow> bool" where
  "cells_kept lo hi h g = (hi \<le> length g \<and> (\<forall>a \<in> {lo..<hi}. g ! a = h ! a))"

text \<open>\<^verbatim>\<open>typeof value === 'object' && value !== null\<close>: the value is a reference.\<close>

definition is_object :: "jsval \<Rightarrow> bool" where
  "is_object v = (case v of JRef a \<Rightarrow> True | _ \<Rightarrow> False)"

subsection \<open>Conversion to a string\<close>

text \<open>
  The conversion a template literal \<^verbatim>\<open>`${key}`\<close> applies to its value; \<open>None\<close> is the
  \<^verbatim>\<open>TypeError\<close> it throws. A symbol cannot be converted. A plain object is converted by
  the \<^verbatim>\<open>toString\<close> it inherits, unless it has a property of that name of its own: that
  property is not callable, the inherited \<^verbatim>\<open>valueOf\<close> returns the object itself, and the
  conversion throws. An array joins the conversions of its elements with commas,
  \<^verbatim>\<open>null\<close> and \<^verbatim>\<open>undefined\<close> elements being empty, as is an array met again inside
  itself.
\<close>

definition has_own_toString :: "(string \<times> jsval) list \<Rightarrow> bool" where
  "has_own_toString fs = (''toString'' \<in> set (map fst fs))"

fun join_commas :: "string list \<Rightarrow> string" where
  "join_commas [] = []"
| "join_commas [x] = x"
| "join_commas (x # y # ys) = x @ '','' @ join_commas (y # ys)"

function ToString :: "heap \<Rightarrow> nat list \<Rightarrow> jsval \<Rightarrow> string option" where
  "ToString h stk JUndefined = Some ''undefined''"
| "ToString h stk JNull = Some ''null''"
| "ToString h stk (JBool b) = Some (if b then ''true'' else ''false'')"
| "ToString h stk (JNum n) = Some (show_int n)"
| "ToString h stk (JStr s) = Some s"
| "ToString h stk (JSymbol d) = None"
| "ToString h stk (JRef a) =
     (if length h \<le> a then None
      else (case h ! a of
              JObject fs \<Rightarrow> if has_own_toString fs then None else Some ''[object Object]''
            | JArray vs \<Rightarrow>
                if a \<in> set stk then Some []
                else map_option join_commas
                       (those (map (\<lambda>v. if v = JUndefined \<or> v = JNull then Some []
                                        else ToString h (a # stk) v) vs))))"
  by pat_completeness auto
termination
proof (relation "measure (\<lambda>(h, stk, v). card ({..<length h} - set stk))")
  show "wf (measure (\<lambda>(h, stk, v). card ({..<length h} - set stk)))"
    by simp
next
  fix h :: heap and stk :: "nat list" and a :: nat and x :: jsval
  assume "\<not> length h \<le> a" and "a \<notin> set stk"
  then have "a \<in> {..<length h} - set stk"
    by simp
  then have "card ({..<length h} - set stk - {a}) < card ({..<length h} - set stk)"
    by (intro card_Diff1_less) simp_all
  moreover have "{..<length h} - set (a # stk) = {..<length h} - set stk - {a}"
    by auto
  ultimately show "((h, a # stk, x), h, stk, JRef a)
            \<in> measure (\<lambda>(h, stk, v). card ({..<length h} - set stk))"
    by simp
qed

declare ToString.simps(7) [simp del]

text \<open>
  The interpolation of a key into a log line, in the heap of the moment: the text, or
  the \<^verbatim>\<open>TypeError\<close> thrown. Its message is the engine's and is logged nowhere; the
  model words it as V8 does for a symbol and for an object, and keeps the latter wording
  for an array one of whose elements fails to convert.
\<close>

definition interpolate :: "heap \<Rightarrow> jsval \<Rightarrow> thrown + string" where
  "interpolate h v =
     (case ToString h [] v of
        Some s \<Rightarrow> Inr s
      | None \<Rightarrow>
          Inl (JsError (case v of
                          JSymbol d \<Rightarrow> ''Cannot convert a Symbol value to a string''
                        | _ \<Rightarrow> ''Cannot convert object to primitive value'')))"

section \<open>The cache service\<close>

text \<open>
  How a call of a method of the injected \<^verbatim>\<open>cacheManager\<close> ends: it throws at the call,
  or it returns a promise that rejects, or one that resolves. Under \<^verbatim>\<open>await\<close> inside a
  \<^verbatim>\<open>try\<close> block the first two are the same; \<^verbatim>\<open>clear\<close> tells them apart.
\<close>

datatype 'a outcome = Threw thrown | Rejected thrown | Resolved 'a

definition awaited :: "'a outcome \<Rightarrow> thrown + 'a" where
  "awaited out = (case out of Threw e \<Rightarrow> Inl e | Rejected e \<Rightarrow> Inl e | Resolved x \<Rightarrow> Inr x)"

text \<open>
  The injected \<^verbatim>\<open>cacheManager\<close>: the three operations the service calls, over a store
  state \<open>'s\<close>; each also returns the next store state.
\<close>

record 's cache_manager =
  cm_get :: "string \<Rightarrow> 's \<Rightarrow> jsval outcome \<times> 's"
  cm_set :: "string \<Rightarrow> jsval \<Rightarrow> int \<Rightarrow> 's \<Rightarrow> unit outcome \<times> 's"
  cm_del :: "string \<Rightarrow> 's \<Rightarrow> unit outcome \<times> 's"

text \<open>
  The service's log lines, one constructor per template of the source with the texts
  it interpolates (the key as the template converts it to a string, the error's
  message): \<^verbatim>\<open>debug\<close> for \<open>CacheSet\<close>, \<open>CacheDelete\<close> and \<open>CacheCleared\<close>, \<^verbatim>\<open>warn\<close> for
  \<open>FailedToDelete\<close>, \<^verbatim>\<open>error\<close> for the others.
\<close>

datatype cache_log =
    CacheSet string int
  | ErrorSetting string string
  | ErrorGetting string string
  | CacheDelete string
  | ErrorDeleting string string
  | FailedToDelete string string
  | CacheCleared
  | ErrorClearing string
  | ErrorChecking string string

definition log_level_of :: "cache_log \<Rightarrow> log_level" where
  "log_level_of l =
     (case l of
        CacheSet _ _ \<Rightarrow> LDebug
      | CacheDelete _ \<Rightarrow> LDebug
      | CacheCleared \<Rightarrow> LDebug
      | FailedToDelete _ _ \<Rightarrow> LWarn
      | _ \<Rightarrow> LError)"

text \<open>
  The service object (\<open>namespace\<close>, \<open>cachedKeys\<close>, its logger's output) together with
  what its methods act on: the state of the store behind \<open>cacheManager\<close> and the heap of
  the process. \<open>cachedKeys\<close> is a JavaScript \<^verbatim>\<open>Set\<close>: its elements are distinct and kept
  in insertion order.
\<close>

record 's CacheService =
  namespace :: string
  cachedKeys :: "string list"
  cacheManager :: 's
  logger :: "cache_log list"
  js_heap :: heap

definition Set_add :: "'a \<Rightarrow> 'a list \<Rightarrow> 'a list" where
  "Set_add x xs = (if x \<in> set xs then xs else xs @ [x])"

definition Set_delete :: "'a \<Rightarrow> 'a list \<Rightarrow> 'a list" where
  "Set_delete x xs = filter (\<lambda>y. y \<noteq> x) xs"

text \<open>
  The constructor: \<^verbatim>\<open>taskflow:${configService.get('NODE_ENV', 'development')}:\<close>.
\<close>

definition new_CacheService :: "string option \<Rightarrow> 's \<Rightarrow> heap \<Rightarrow> 's CacheService" where
  "new_CacheService node_env st h =
     \<lparr> namespace = ''taskflow:''
                     @ (case node_env of None \<Rightarrow> ''development'' | Some e \<Rightarrow> e) @ '':'',
       cachedKeys = [], cacheManager = st, logger = [], js_heap = h \<rparr>"

text \<open>
  \<^verbatim>\<open>getNamespacedKey\<close>: \<^verbatim>\<open>!key || typeof key !== 'string'\<close> holds of every value but a
  non-empty string.
\<close>

definition getNamespacedKey :: "string \<Rightarrow> jsval \<Rightarrow> thrown + string" where
  "getNamespacedKey ns key =
     (case key of
        JStr s \<Rightarrow> if s = [] then Inl (JsError ''Cache key must be a non-empty string'')
                  else Inr (ns @ s)
      | _ \<Rightarrow> Inl (JsError ''Cache key must be a non-empty string''))"

text \<open>
  The \<^verbatim>\<open>catch\<close> block the methods \<^verbatim>\<open>set\<close>, \<^verbatim>\<open>get\<close>, \<^verbatim>\<open>delete\<close> and \<^verbatim>\<open>has\<close> share: the log
  line interpolates the key, which throws for a key that cannot be converted to a
  string; otherwise the line is logged and the method returns its fallback value.
\<close>

definition catch_and_log ::
  "(string \<Rightarrow> string \<Rightarrow> cache_log) \<Rightarrow> jsval \<Rightarrow> 'a \<Rightarrow> thrown \<Rightarrow> 's CacheService
     \<Rightarrow> (thrown + 'a) \<times> 's CacheService" where
  "catch_and_log line key fallback e svc =
     (case interpolate (js_heap svc) key of
        Inl type_error \<Rightarrow> (Inl type_error, svc)
      | Inr key_text \<Rightarrow>
          (Inr fallback, svc\<lparr>logger := logger svc @ [line key_text (errorMessage e)]\<rparr>))"

text \<open>\<^verbatim>\<open>set\<close>: the \<^verbatim>\<open>try\<close> block, then the method with its \<^verbatim>\<open>catch\<close>.\<close>

definition cache_set_try ::
  "'s cache_manager \<Rightarrow> jsval \<Rightarrow> jsval \<Rightarrow> int \<Rightarrow> 's CacheService
     \<Rightarrow> (thrown + unit) \<times> 's CacheService" where
  "cache_set_try cm key val ttlSeconds svc =
     (case getNamespacedKey (namespace svc) key of
        Inl e \<Rightarrow> (Inl e, svc)
      | Inr namespacedKey \<Rightarrow>
          (case (if is_object val then json_clone (js_heap svc) val
                 else Inr (val, js_heap svc)) of
             Inl e \<Rightarrow> (Inl e, svc)
           | Inr (valueToStore, h') \<Rightarrow>
               (case cm_set cm namespacedKey valueToStore (ttlSeconds * 1000) (cacheManager svc) of
                  (out, st') \<Rightarrow>
                    (case awaited out of
                       Inl e \<Rightarrow> (Inl e, svc\<lparr>cacheManager := st', js_heap := h'\<rparr>)
                     | Inr _ \<Rightarrow>
                         (Inr (),
                          svc\<lparr> cacheManager := st', js_heap := h',
                               cachedKeys := Set_add namespacedKey (cachedKeys svc),
                               logger := logger svc
                                 @ [CacheSet namespacedKey ttlSeconds] \<rparr>)))))"

definition cache_set ::
  "'s cache_manager \<Rightarrow> jsval \<Rightarrow> jsval \<Rightarrow> int \<Rightarrow> 's CacheService
     \<Rightarrow> (thrown + unit) \<times> 's CacheService" where
  "cache_set cm key val ttlSeconds svc =
     (case cache_set_try cm key val ttlSeconds svc of
        (Inr u, svc') \<Rightarrow> (Inr u, svc')
      | (Inl e, svc') \<Rightarrow> catch_and_log ErrorSetting key () e svc')"

text \<open>\<^verbatim>\<open>get\<close>.\<close>

definition cache_get_try ::
  "'s cache_manager \<Rightarrow> jsval \<Rightarrow> 's CacheService \<Rightarrow> (thrown + jsval) \<times> 's CacheService" where
  "cache_get_try cm key svc =
     (case getNamespacedKey (namespace svc) key of
        Inl e \<Rightarrow> (Inl e, svc)
      | Inr namespacedKey \<Rightarrow>
          (case cm_get cm namespacedKey (cacheManager svc) of
             (out, st') \<Rightarrow>
               (case awaited out of
                  Inl e \<Rightarrow> (Inl e, svc\<lparr>cacheManager := st'\<rparr>)
                | Inr v \<Rightarrow>
                    if v \<noteq> JNull \<and> v \<noteq> JUndefined \<and> is_object v then
                      (case json_clone (js_heap svc) v of
                         Inl e \<Rightarrow> (Inl e, svc\<lparr>cacheManager := st'\<rparr>)
                       | Inr (copy, h') \<Rightarrow>
                           (Inr copy, svc\<lparr>cacheManager := st', js_heap := h'\<rparr>))
                    else (Inr v, svc\<lparr>cacheManager := st'\<rparr>))))"

definition cache_get ::
  "'s cache_manager \<Rightarrow> jsval \<Rightarrow> 's CacheService \<Rightarrow> (thrown + jsval) \<times> 's CacheService" where
  "cache_get cm key svc =
     (case cache_get_try cm key svc of
        (Inr v, svc') \<Rightarrow> (Inr v, svc')
      | (Inl e, svc') \<Rightarrow> catch_and_log ErrorGetting key JNull e svc')"

text \<open>\<^verbatim>\<open>delete\<close>.\<close>

definition cache_delete_try ::
  "'s cache_manager \<Rightarrow> jsval \<Rightarrow> 's CacheService \<Rightarrow> (thrown + bool) \<times> 's CacheService" where
  "cache_delete_try cm key svc =
     (case getNamespacedKey (namespace svc) key of
        Inl e \<Rightarrow> (Inl e, svc)
      | Inr namespacedKey \<Rightarrow>
          (case cm_del cm namespacedKey (cacheManager svc) of
             (out, st') \<Rightarrow>
               (case awaited out of
                  Inl e \<Rightarrow> (Inl e, svc\<lparr>cacheManager := st'\<rparr>)
                | Inr _ \<Rightarrow>
                    (Inr True,
                     svc\<lparr> cacheManager := st',
                          cachedKeys := Set_delete namespacedKey (cachedKeys svc),
                          logger := logger svc @ [CacheDelete namespacedKey] \<rparr>))))"

definition cache_delete ::
  "'s cache_manager \<Rightarrow> jsval \<Rightarrow> 's CacheService \<Rightarrow> (thrown + bool) \<times> 's CacheService" where
  "cache_delete cm key svc =
     (case cache_delete_try cm key svc of
        (Inr b, svc') \<Rightarrow> (Inr b, svc')
      | (Inl e, svc') \<Rightarrow> catch_and_log ErrorDeleting key False e svc')"

text \<open>
  \<^verbatim>\<open>clear\<close>. \<^verbatim>\<open>Array.from(this.cachedKeys).map(...)\<close> calls \<open>del\<close> for the tracked keys in
  the set's order. A call that returns a promise gets its own \<^verbatim>\<open>.catch\<close>, which logs a
  warning on rejection and resolves. A call that throws instead ends the \<^verbatim>\<open>map\<close>: the
  keys after it get no delete, and the error goes to the outer \<^verbatim>\<open>catch\<close>. The result is
  the error thrown at a call, if any, the store after the deletes issued, and the
  warnings of the deletes that rejected.
\<close>

fun clear_deletes ::
  "'s cache_manager \<Rightarrow> string list \<Rightarrow> 's \<Rightarrow> (thrown + unit) \<times> 's \<times> cache_log list" where
  "clear_deletes cm [] st = (Inr (), st, [])"
| "clear_deletes cm (k # ks) st =
     (case cm_del cm k st of
        (Threw err, st') \<Rightarrow> (Inl err, st', [])
      | (Rejected err, st') \<Rightarrow>
          (case clear_deletes cm ks st' of
             (r, st'', lg) \<Rightarrow> (r, st'', FailedToDelete k (errorMessage err) # lg))
      | (Resolved _, st') \<Rightarrow> clear_deletes cm ks st')"

text \<open>
  When every delete was issued, \<^verbatim>\<open>Promise.all\<close> resolves, the tracking set is reset and
  \<^verbatim>\<open>Cache cleared\<close> is logged after the warnings. When a call threw, the outer \<^verbatim>\<open>catch\<close>
  logs \<^verbatim>\<open>Error clearing cache\<close> at once and the tracking set is left as it was; the
  warnings of the deletes issued before follow as their promises reject.
\<close>

definition cache_clear ::
  "'s cache_manager \<Rightarrow> 's CacheService \<Rightarrow> (thrown + unit) \<times> 's CacheService" where
  "cache_clear cm svc =
     (case clear_deletes cm (cachedKeys svc) (cacheManager svc) of
        (Inr _, st', lg) \<Rightarrow>
          (Inr (),
           svc\<lparr> cacheManager := st', cachedKeys := [],
                logger := logger svc @ lg @ [CacheCleared] \<rparr>)
      | (Inl e, st', lg) \<Rightarrow>
          (Inr (),
           svc\<lparr> cacheManager := st',
                logger := logger svc @ [ErrorClearing (errorMessage e)] @ lg \<rparr>))"

text \<open>\<^verbatim>\<open>has\<close>.\<close>

definition cache_has_try ::
  "'s cache_manager \<Rightarrow> jsval \<Rightarrow> 's CacheService \<Rightarrow> (thrown + bool) \<times> 's CacheService" where
  "cache_has_try cm key svc =
     (case getNamespacedKey (namespace svc) key of
        Inl e \<Rightarrow> (Inl e, svc)
      | Inr namespacedKey \<Rightarrow>
          (case cm_get cm namespacedKey (cacheManager svc) of
             (out, st') \<Rightarrow>
               (case awaited out of
                  Inl e \<Rightarrow> (Inl e, svc\<lparr>cacheManager := st'\<rparr>)
                | Inr v \<Rightarrow>
                    (Inr (v \<noteq> JUndefined \<and> v \<noteq> JNull), svc\<lparr>cacheManager := st'\<rparr>))))"

definition cache_has ::
  "'s cache_manager \<Rightarrow> jsval \<Rightarrow> 's CacheService \<Rightarrow> (thrown + bool) \<times> 's CacheService" where
  "cache_has cm key svc =
     (case cache_has_try cm key svc of
        (Inr b, svc') \<Rightarrow> (Inr b, svc')
      | (Inl e, svc') \<Rightarrow> catch_and_log ErrorChecking key False e svc')"

text \<open>
  The argument of \<^verbatim>\<open>mset\<close> and \<^verbatim>\<open>mget\<close>, which both test \<^verbatim>\<open>Array.isArray\<close>: some value
  that is not an array, or an array with its elements.
\<close>

datatype 'a array_arg = NotAnArray jsval | ArrayOf "'a list"

text \<open>
  An element of the array given to \<^verbatim>\<open>mset\<close>, as the pattern \<^verbatim>\<open>[key, value]\<close> reads it: the
  first two values the element yields when iterated (\<^verbatim>\<open>undefined\<close> where it yields
  fewer), or an element that cannot be iterated (\<^verbatim>\<open>null\<close>, \<^verbatim>\<open>undefined\<close>, a number, a
  plain object), at which the pattern throws a \<^verbatim>\<open>TypeError\<close>.
\<close>

datatype mset_entry = Entry jsval jsval | NotIterable jsval

text \<open>That \<^verbatim>\<open>TypeError\<close>; the engine's message names the element.\<close>

definition not_iterable :: thrown where
  "not_iterable = JsError ''element is not iterable''"

text \<open>
  \<^verbatim>\<open>entries.map(([key, value]) => this.set(key, value, ttlSeconds))\<close>: the elements are
  taken in order and a \<^verbatim>\<open>set\<close> is started for each; an element that cannot be
  destructured throws out of the \<^verbatim>\<open>map\<close>, and the elements after it are not reached.
  Otherwise \<^verbatim>\<open>Promise.all\<close> rejects with the rejection of a \<^verbatim>\<open>set\<close>, if one rejected.
\<close>

fun mset_all ::
  "'s cache_manager \<Rightarrow> mset_entry list \<Rightarrow> int \<Rightarrow> 's CacheService
     \<Rightarrow> unit outcome \<times> 's CacheService" where
  "mset_all cm [] ttlSeconds svc = (Resolved (), svc)"
| "mset_all cm (NotIterable x # es) ttlSeconds svc = (Threw not_iterable, svc)"
| "mset_all cm (Entry key val # es) ttlSeconds svc =
     (case cache_set cm key val ttlSeconds svc of
        (r, svc1) \<Rightarrow>
          (case mset_all cm es ttlSeconds svc1 of
             (rs, svc2) \<Rightarrow>
               ((case rs of
                   Threw e \<Rightarrow> Threw e
                 | _ \<Rightarrow> (case r of Inl e \<Rightarrow> Rejected e | Inr _ \<Rightarrow> rs)),
                svc2)))"

definition cache_mset ::
  "'s cache_manager \<Rightarrow> mset_entry array_arg \<Rightarrow> int \<Rightarrow> 's CacheService
     \<Rightarrow> (thrown + unit) \<times> 's CacheService" where
  "cache_mset cm entries ttlSeconds svc =
     (case entries of
        NotAnArray _ \<Rightarrow> (Inl (JsError ''Entries must be an array of key-value pairs''), svc)
      | ArrayOf es \<Rightarrow>
          (case mset_all cm es ttlSeconds svc of (out, svc') \<Rightarrow> (awaited out, svc')))"

text \<open>
  \<^verbatim>\<open>Promise.all(keys.map(async key => [key, await this.get(key)]))\<close>: a \<^verbatim>\<open>get\<close> is started
  for every key; the result is the pairs, or the rejection of a \<^verbatim>\<open>get\<close>.
\<close>

fun mget_all ::
  "'s cache_manager \<Rightarrow> jsval list \<Rightarrow> 's CacheService
     \<Rightarrow> (thrown + (jsval \<times> jsval) list) \<times> 's CacheService" where
  "mget_all cm [] svc = (Inr [], svc)"
| "mget_all cm (key # ks) svc =
     (case cache_get cm key svc of
        (r, svc1) \<Rightarrow>
          (case mget_all cm ks svc1 of
             (rs, svc2) \<Rightarrow>
               ((case r of
                   Inl e \<Rightarrow> Inl e
                 | Inr v \<Rightarrow> (case rs of Inl e \<Rightarrow> Inl e | Inr ps \<Rightarrow> Inr ((key, v) # ps))),
                svc2)))"

text \<open>
  \<^verbatim>\<open>Object.fromEntries\<close>: each key is converted to a property name, and the record maps a
  name to the value of its last pair. Every key that comes here has been interpolated or
  validated by its \<^verbatim>\<open>get\<close>, which rejects for a symbol and for any other key that
  does not convert to a string; so the conversion to a string is the conversion to a
  property name on the keys that arrive (lemma \<open>cache_mget_returns\<close>).
\<close>

definition property_names ::
  "heap \<Rightarrow> (jsval \<times> jsval) list \<Rightarrow> (string \<times> jsval) list option" where
  "property_names h ps = those (map (\<lambda>(k, v). map_option (\<lambda>s. (s, v)) (ToString h [] k)) ps)"

definition fromEntries :: "(string \<times> jsval) list \<Rightarrow> (string \<rightharpoonup> jsval)" where
  "fromEntries ps = fold (\<lambda>(k, v) m. m(k \<mapsto> v)) ps Map.empty"

definition cache_mget ::
  "'s cache_manager \<Rightarrow> jsval array_arg \<Rightarrow> 's CacheService
     \<Rightarrow> (thrown + (string \<rightharpoonup> jsval)) \<times> 's CacheService" where
  "cache_mget cm keys svc =
     (case keys of
        NotAnArray _ \<Rightarrow> (Inl (JsError ''Keys must be an array''), svc)
      | ArrayOf ks \<Rightarrow>
          (case mget_all cm ks svc of
             (Inl e, svc') \<Rightarrow> (Inl e, svc')
           | (Inr ps, svc') \<Rightarrow>
               (case property_names (js_heap svc') ps of
                  None \<Rightarrow> (Inl (JsError ''Cannot convert object to primitive value''), svc')
                | Some named \<Rightarrow> (Inr (fromEntries named), svc'))))"

subsection \<open>Reference stores\<close>

text \<open>
  The simplest in-memory cache manager: a map from keys to the stored value and the
  time to live it was given, in milliseconds, with no expiry. It keeps the very value it
  is handed (a reference stays a reference to the same object). \<open>miss\<close> is what it
  answers for a key it does not hold (\<^verbatim>\<open>null\<close> or \<^verbatim>\<open>undefined\<close>, by the version of the
  library); the operations on the keys named by \<open>down\<close> reject and leave the store as it
  was.
\<close>

datatype cm_op = CmGet | CmSet | CmDel

type_synonym mem_store = "string \<Rightarrow> (jsval \<times> int) option"

definition store_unavailable :: thrown where
  "store_unavailable = JsError ''store unavailable''"

definition mem_manager :: "jsval \<Rightarrow> (cm_op \<Rightarrow> string \<Rightarrow> bool) \<Rightarrow> mem_store cache_manager" where
  "mem_manager miss down =
     \<lparr> cm_get = (\<lambda>k st. if down CmGet k then (Rejected store_unavailable, st)
                         else (Resolved (case st k of None \<Rightarrow> miss | Some (v, ttl) \<Rightarrow> v), st)),
       cm_set = (\<lambda>k v ttl st. if down CmSet k then (Rejected store_unavailable, st)
                              else (Resolved (), st(k \<mapsto> (v, ttl)))),
       cm_del = (\<lambda>k st. if down CmDel k then (Rejected store_unavailable, st)
                         else (Resolved (), st(k := None))) \<rparr>"

text \<open>Three fault plans: nothing fails, every delete fails, everything fails.\<close>

definition healthy :: "cm_op \<Rightarrow> string \<Rightarrow> bool" where
  "healthy op k = False"

definition deletes_fail :: "cm_op \<Rightarrow> string \<Rightarrow> bool" where
  "deletes_fail op k = (op = CmDel)"

definition unavailable :: "cm_op \<Rightarrow> string \<Rightarrow> bool" where
  "unavailable op k = True"

text \<open>
  A store with expiry, at the time \<open>now\<close> of the call (milliseconds): an entry is the
  value and the time at which it expires, \<open>now + ttl\<close> when it was set; a key is held
  while its entry has not expired, so a time to live of zero or less is never held. The
  plan says how each operation on each key ends: it works, it throws at the call, it
  rejects without having touched the store, or it rejects after its effect took place.
\<close>

datatype fault = Works | ThrowsAtCall | RejectsUntouched | RejectsAfterEffect

type_synonym expiring_store = "string \<Rightarrow> (jsval \<times> int) option"

definition held :: "expiring_store \<Rightarrow> int \<Rightarrow> string \<Rightarrow> jsval option" where
  "held st now k =
     (case st k of
        None \<Rightarrow> None
      | Some (v, expires) \<Rightarrow> if now < expires then Some v else None)"

definition ends :: "fault \<Rightarrow> 'a \<Rightarrow> 's \<Rightarrow> 's \<Rightarrow> 'a outcome \<times> 's" where
  "ends f result st st' =
     (case f of
        Works \<Rightarrow> (Resolved result, st')
      | ThrowsAtCall \<Rightarrow> (Threw store_unavailable, st)
      | RejectsUntouched \<Rightarrow> (Rejected store_unavailable, st)
      | RejectsAfterEffect \<Rightarrow> (Rejected store_unavailable, st'))"

definition expiring_manager ::
  "jsval \<Rightarrow> (cm_op \<Rightarrow> string \<Rightarrow> fault) \<Rightarrow> int \<Rightarrow> expiring_store cache_manager" where
  "expiring_manager miss plan now =
     \<lparr> cm_get = (\<lambda>k st. ends (plan CmGet k)
                           (case held st now k of None \<Rightarrow> miss | Some v \<Rightarrow> v) st st),
       cm_set = (\<lambda>k v ttl st. ends (plan CmSet k) () st (st(k \<mapsto> (v, now + ttl)))),
       cm_del = (\<lambda>k st. ends (plan CmDel k) () st (st(k := None))) \<rparr>"

definition no_faults :: "cm_op \<Rightarrow> string \<Rightarrow> fault" where
  "no_faults op k = Works"

definition deletes_reject :: "cm_op \<Rightarrow> string \<Rightarrow> fault" where
  "deletes_reject op k = (if op = CmDel then RejectsUntouched else Works)"

definition deletes_throw :: "cm_op \<Rightarrow> string \<Rightarrow> fault" where
  "deletes_throw op k = (if op = CmDel then ThrowsAtCall else Works)"

subsection \<open>The states a service can be in\<close>

text \<open>
  The states reached from the constructor by the public methods, with any change of
  the store and of the heap by the rest of the program in between.
\<close>

inductive reachable :: "'s cache_manager \<Rightarrow> 's CacheService \<Rightarrow> bool" for cm :: "'s cache_manager" where
  r_new: "reachable cm (new_CacheService node_env st h)"
| r_set: "reachable cm svc \<Longrightarrow> reachable cm (snd (cache_set cm key val ttlSeconds svc))"
| r_get: "reachable cm svc \<Longrightarrow> reachable cm (snd (cache_get cm key svc))"
| r_delete: "reachable cm svc \<Longrightarrow> reachable cm (snd (cache_delete cm key svc))"
| r_clear: "reachable cm svc \<Longrightarrow> reachable cm (snd (cache_clear cm svc))"
| r_has: "reachable cm svc \<Longrightarrow> reachable cm (snd (cache_has cm key svc))"
| r_mset: "reachable cm svc \<Longrightarrow> reachable cm (snd (cache_mset cm entries ttlSeconds svc))"
| r_mget: "reachable cm svc \<Longrightarrow> reachable cm (snd (cache_mget cm keys svc))"
| r_world: "reachable cm svc \<Longrightarrow> reachable cm (svc\<lparr>cacheManager := st, js_heap := h\<rparr>)"

text \<open>Every key of \<open>ks\<close> is the prefix \<open>ns\<close> followed by a non-empty logical key.\<close>

definition namespaced :: "string \<Rightarrow> string list \<Rightarrow> bool" where
  "namespaced ns ks = (\<forall>k \<in> set ks. \<exists>logical. logical \<noteq> [] \<and> k = ns @ logical)"

text \<open>
  \<open>copy_of h v h' r\<close>: the value \<open>r\<close>, read in the heap \<open>h'\<close>, is a copy of the value \<open>v\<close>
  as it was in the heap \<open>h\<close>: the same primitive, or an object with the same JSON value.
\<close>

definition copy_of :: "heap \<Rightarrow> jsval \<Rightarrow> heap \<Rightarrow> jsval \<Rightarrow> bool" where
  "copy_of h v h' r =
     (if is_object v then is_object r \<and> serialize h' [] r = serialize h [] v else r = v)"

text \<open>
  \<open>answer_ok miss st now ns h h' k r\<close>: \<open>r\<close>, read in the heap \<open>h'\<close>, is what \<^verbatim>\<open>get(k)\<close> is
  to answer at the time \<open>now\<close> from the store with expiry \<open>st\<close> whose miss value is \<open>miss\<close>,
  the heap being \<open>h\<close> when the store is read: \<^verbatim>\<open>null\<close> for the empty key, \<open>miss\<close> for a key
  the store does not hold, the primitive it holds, or an object with the JSON value of
  the object it holds.
\<close>

definition answer_ok ::
  "jsval \<Rightarrow> expiring_store \<Rightarrow> int \<Rightarrow> string \<Rightarrow> heap \<Rightarrow> heap \<Rightarrow> string \<Rightarrow> jsval \<Rightarrow> bool" where
  "answer_ok miss st now ns h h' k r =
     (if k = [] then r = JNull
      else (case held st now (ns @ k) of
              None \<Rightarrow> r = miss
            | Some v \<Rightarrow>
                if is_object v
                then (\<forall>j. serialize h [] v = Some j \<longrightarrow> serialize h' [] r = Some j)
                else r = v))"

section \<open>Properties of the rate-limit guard\<close>

lemmas decimal_simps = show_int_def show_nat.simps digit_char_def string2ll_def is_digit_def
  digits_to_nat_def digit_val_def LLONG_MAX_def parseInt10_def is_space_def

lemmas redis_simps = redis_at_def redis_GET_def redis_TTL_def redis_INCR_def redis_EXPIRE_def
  redis_MULTI_incr_expire_def live_def

lemmas guard_simps = handleRateLimit_def handleRateLimit_try_def currentCount_of_def
  count_ge_def TOO_MANY_REQUESTS_def rate_limit_key_def

text \<open>
  One request against the reachable store, under the policy \<open>limit = 3\<close>,
  \<open>windowMs = 60000\<close>, by the state of the counter it finds.
\<close>

lemma request_on_absent_key:
  assumes "live db t (rate_limit_key h r) = None"
  shows "handleRateLimit (redis_at t) t h r \<lparr>opt_limit = 3, opt_windowMs = 60000\<rparr> db
           = (Inr True,
              db(rate_limit_key h r \<mapsto> \<lparr>content = ''1'', expire_at = Some (t + 60000)\<rparr>), [])"
  using assms
  by (simp add: guard_simps redis_simps decimal_simps Let_def split: option.splits)

lemma request_on_count_1:
  assumes "db (rate_limit_key h r) = Some \<lparr>content = ''1'', expire_at = Some e\<rparr>" and "t \<le> e"
  shows "handleRateLimit (redis_at t) t h r \<lparr>opt_limit = 3, opt_windowMs = 60000\<rparr> db
           = (Inr True,
              db(rate_limit_key h r \<mapsto> \<lparr>content = ''2'', expire_at = Some (t + 60000)\<rparr>), [])"
  using assms
  by (simp add: guard_simps redis_simps decimal_simps Let_def split: option.splits)

lemma request_on_count_2:
  assumes "db (rate_limit_key h r) = Some \<lparr>content = ''2'', expire_at = Some e\<rparr>" and "t \<le> e"
  shows "handleRateLimit (redis_at t) t h r \<lparr>opt_limit = 3, opt_windowMs = 60000\<rparr> db
           = (Inr True,
              db(rate_limit_key h r \<mapsto> \<lparr>content = ''3'', expire_at = Some (t + 60000)\<rparr>), [])"
  using assms
  by (simp add: guard_simps redis_simps decimal_simps Let_def split: option.splits)

lemma request_on_count_3:
  assumes "db (rate_limit_key h r) = Some \<lparr>content = ''3'', expire_at = Some e\<rparr>" and "t \<le> e"
  shows "handleRateLimit (redis_at t) t h r \<lparr>opt_limit = 3, opt_windowMs = 60000\<rparr> db
           = (Inl \<lparr> statusCode = 429,
                    exc_message = ''Too many requests, please try again later.'',
                    exc_limit = 3, exc_current = Num 3, remainingRequests = 0,
                    nextValidRequestTime = t + redis_TTL db t (rate_limit_key h r) * 1000 \<rparr>,
              db, [RateLimitExceeded h r (Num 3) 3])"
  using assms
  by (simp add: guard_simps redis_simps decimal_simps Let_def split: option.splits)

text \<open>
  C2. Policy \<open>limit = 3\<close>, \<open>windowMs = 60000\<close>; the counter of the identity and route is
  absent (or expired) at the first request, and four requests arrive at times
  \<open>t1 \<le> t2 \<le> t3 \<le> t4\<close>, all less than 60 seconds after the first. The first three are
  allowed and leave the counter at 1, 2 and 3. The fourth is rejected with status 429,
  \<open>limit = 3\<close>, \<open>current = 3\<close>, \<open>remainingRequests = 0\<close> and the next valid request time
  \<open>now + ttl * 1000\<close> for the time to live the store reports; the store after the
  rejection is the store before it, so the counter is not incremented and its expiry is
  not changed.
\<close>

theorem three_allowed_fourth_rejected:
  assumes absent: "live db t1 (rate_limit_key hashedIp route) = None"
    and times: "t1 \<le> t2" "t2 \<le> t3" "t3 \<le> t4" "t4 < t1 + 60000"
  shows "\<exists>db1 db2 db3.
           handleRateLimit (redis_at t1) t1 hashedIp route
               \<lparr>opt_limit = 3, opt_windowMs = 60000\<rparr> db = (Inr True, db1, [])
         \<and> redis_GET db1 t2 (rate_limit_key hashedIp route) = Some ''1''
         \<and> handleRateLimit (redis_at t2) t2 hashedIp route
               \<lparr>opt_limit = 3, opt_windowMs = 60000\<rparr> db1 = (Inr True, db2, [])
         \<and> redis_GET db2 t3 (rate_limit_key hashedIp route) = Some ''2''
         \<and> handleRateLimit (redis_at t3) t3 hashedIp route
               \<lparr>opt_limit = 3, opt_windowMs = 60000\<rparr> db2 = (Inr True, db3, [])
         \<and> redis_GET db3 t4 (rate_limit_key hashedIp route) = Some ''3''
         \<and> handleRateLimit (redis_at t4) t4 hashedIp route
               \<lparr>opt_limit = 3, opt_windowMs = 60000\<rparr> db3
             = (Inl \<lparr> statusCode = 429,
                      exc_message = ''Too many requests, please try again later.'',
                      exc_limit = 3, exc_current = Num 3, remainingRequests = 0,
                      nextValidRequestTime
                        = t4 + redis_TTL db3 t4 (rate_limit_key hashedIp route) * 1000 \<rparr>,
                db3, [RateLimitExceeded hashedIp route (Num 3) 3])
         \<and> 0 \<le> redis_TTL db3 t4 (rate_limit_key hashedIp route)"
proof -
  let ?k = "rate_limit_key hashedIp route"
  let ?db1 = "db(?k \<mapsto> \<lparr>content = ''1'', expire_at = Some (t1 + 60000)\<rparr>)"
  let ?db2 = "?db1(?k \<mapsto> \<lparr>content = ''2'', expire_at = Some (t2 + 60000)\<rparr>)"
  let ?db3 = "?db2(?k \<mapsto> \<lparr>content = ''3'', expire_at = Some (t3 + 60000)\<rparr>)"
  have r1: "handleRateLimit (redis_at t1) t1 hashedIp route
              \<lparr>opt_limit = 3, opt_windowMs = 60000\<rparr> db = (Inr True, ?db1, [])"
    by (rule request_on_absent_key [OF absent])
  have r2: "handleRateLimit (redis_at t2) t2 hashedIp route
              \<lparr>opt_limit = 3, opt_windowMs = 60000\<rparr> ?db1 = (Inr True, ?db2, [])"
    by (rule request_on_count_1 [where e = "t1 + 60000"]) (use times in simp_all)
  have r3: "handleRateLimit (redis_at t3) t3 hashedIp route
              \<lparr>opt_limit = 3, opt_windowMs = 60000\<rparr> ?db2 = (Inr True, ?db3, [])"
    by (rule request_on_count_2 [where e = "t2 + 60000"]) (use times in simp_all)
  have r4: "handleRateLimit (redis_at t4) t4 hashedIp route
              \<lparr>opt_limit = 3, opt_windowMs = 60000\<rparr> ?db3
            = (Inl \<lparr> statusCode = 429,
                      exc_message = ''Too many requests, please try again later.'',
                      exc_limit = 3, exc_current = Num 3, remainingRequests = 0,
                      nextValidRequestTime = t4 + redis_TTL ?db3 t4 ?k * 1000 \<rparr>,
               ?db3, [RateLimitExceeded hashedIp route (Num 3) 3])"
    by (rule request_on_count_3 [where e = "t3 + 60000"]) (use times in simp_all)
  have g1: "redis_GET ?db1 t2 ?k = Some ''1''"
    using times by (simp add: redis_GET_def live_def)
  have g2: "redis_GET ?db2 t3 ?k = Some ''2''"
    using times by (simp add: redis_GET_def live_def)
  have g3: "redis_GET ?db3 t4 ?k = Some ''3''"
    using times by (simp add: redis_GET_def live_def)
  have ttl: "0 \<le> redis_TTL ?db3 t4 ?k"
    using times by (simp add: redis_TTL_def live_def)
  from r1 g1 r2 g2 r3 g3 r4 ttl show ?thesis
    by blast
qed

theorem three_allowed_fourth_rejected_witness:
  "live Map.empty 1000 (rate_limit_key ''9f86d0'' ''GET:/tasks'') = None
   \<and> (1000::int) \<le> 2000 \<and> (2000::int) \<le> 30000 \<and> (30000::int) \<le> 45000
   \<and> (45000::int) < 1000 + 60000
   \<and> (\<exists>db1 db2 db3.
           handleRateLimit (redis_at 1000) 1000 ''9f86d0'' ''GET:/tasks''
               \<lparr>opt_limit = 3, opt_windowMs = 60000\<rparr> Map.empty = (Inr True, db1, [])
         \<and> redis_GET db1 2000 (rate_limit_key ''9f86d0'' ''GET:/tasks'') = Some ''1''
         \<and> handleRateLimit (redis_at 2000) 2000 ''9f86d0'' ''GET:/tasks''
               \<lparr>opt_limit = 3, opt_windowMs = 60000\<rparr> db1 = (Inr True, db2, [])
         \<and> redis_GET db2 30000 (rate_limit_key ''9f86d0'' ''GET:/tasks'') = Some ''2''
         \<and> handleRateLimit (redis_at 30000) 30000 ''9f86d0'' ''GET:/tasks''
               \<lparr>opt_limit = 3, opt_windowMs = 60000\<rparr> db2 = (Inr True, db3, [])
         \<and> redis_GET db3 45000 (rate_limit_key ''9f86d0'' ''GET:/tasks'') = Some ''3''
         \<and> handleRateLimit (redis_at 45000) 45000 ''9f86d0'' ''GET:/tasks''
               \<lparr>opt_limit = 3, opt_windowMs = 60000\<rparr> db3
             = (Inl \<lparr> statusCode = 429,
                      exc_message = ''Too many requests, please try again later.'',
                      exc_limit = 3, exc_current = Num 3, remainingRequests = 0,
                      nextValidRequestTime
                        = 45000 + redis_TTL db3 45000 (rate_limit_key ''9f86d0'' ''GET:/tasks'') * 1000 \<rparr>,
                db3, [RateLimitExceeded ''9f86d0'' ''GET:/tasks'' (Num 3) 3])
         \<and> 0 \<le> redis_TTL db3 45000 (rate_limit_key ''9f86d0'' ''GET:/tasks''))"
proof -
  have absent: "live Map.empty 1000 (rate_limit_key ''9f86d0'' ''GET:/tasks'') = None"
    by (simp add: live_def)
  show ?thesis
    using absent
      three_allowed_fourth_rejected [OF absent, of 2000 30000 45000]
    by simp
qed

text \<open>
  C3. Whatever the store client does: when the counter read rejects, when the counter
  has reached the limit and the time-to-live read rejects, or when the counter is below
  the limit and the increment transaction rejects, the guard returns \<open>True\<close> (allowed)
  and logs the error's message; the store failure is not thrown. The guard throws only
  when both reads resolved and the counter has reached the limit, and what it throws is
  its own exception with status 429.
\<close>

theorem handleRateLimit_fails_open:
  "(\<forall>e st1. rc_get redis (rate_limit_key hashedIp route) st = (Inl e, st1) \<longrightarrow>
       handleRateLimit redis now hashedIp route options st
         = (Inr True, st1, [RateLimitCheckError (errorMessage e)]))
   \<and> (\<forall>current st1 e st2.
         rc_get redis (rate_limit_key hashedIp route) st = (Inr current, st1)
         \<and> count_ge (currentCount_of current) (opt_limit options)
         \<and> rc_ttl redis (rate_limit_key hashedIp route) st1 = (Inl e, st2) \<longrightarrow>
       handleRateLimit redis now hashedIp route options st
         = (Inr True, st2, [RateLimitCheckError (errorMessage e)]))
   \<and> (\<forall>current st1 e st2.
         rc_get redis (rate_limit_key hashedIp route) st = (Inr current, st1)
         \<and> \<not> count_ge (currentCount_of current) (opt_limit options)
         \<and> rc_incr_expire redis (rate_limit_key hashedIp route)
               (opt_windowMs options div 1000) st1 = (Inl e, st2) \<longrightarrow>
       handleRateLimit redis now hashedIp route options st
         = (Inr True, st2, [RateLimitCheckError (errorMessage e)]))
   \<and> (\<forall>ex. fst (handleRateLimit redis now hashedIp route options st) = Inl ex \<longrightarrow>
         (\<exists>current st1 ttl st2.
            rc_get redis (rate_limit_key hashedIp route) st = (Inr current, st1)
            \<and> count_ge (currentCount_of current) (opt_limit options)
            \<and> rc_ttl redis (rate_limit_key hashedIp route) st1 = (Inr ttl, st2)
            \<and> statusCode ex = TOO_MANY_REQUESTS
            \<and> exc_current ex = currentCount_of current
            \<and> exc_limit ex = opt_limit options))"
  by (auto simp: handleRateLimit_def handleRateLimit_try_def Let_def
           split: prod.splits sum.splits guard_thrown.splits if_splits)

theorem handleRateLimit_fails_open_witness:
  "handleRateLimit (redis_faulty (\<lambda>op. op = OpGet) 5000) 5000 ''9f86d0'' ''GET:/tasks''
      \<lparr>opt_limit = 3, opt_windowMs = 60000\<rparr>
      [rate_limit_key ''9f86d0'' ''GET:/tasks'' \<mapsto> \<lparr>content = ''3'', expire_at = Some 60000\<rparr>]
    = (Inr True,
       [rate_limit_key ''9f86d0'' ''GET:/tasks'' \<mapsto> \<lparr>content = ''3'', expire_at = Some 60000\<rparr>],
       [RateLimitCheckError ''Connection is closed.''])
   \<and> handleRateLimit (redis_faulty (\<lambda>op. op = OpTtl) 5000) 5000 ''9f86d0'' ''GET:/tasks''
      \<lparr>opt_limit = 3, opt_windowMs = 60000\<rparr>
      [rate_limit_key ''9f86d0'' ''GET:/tasks'' \<mapsto> \<lparr>content = ''3'', expire_at = Some 60000\<rparr>]
    = (Inr True,
       [rate_limit_key ''9f86d0'' ''GET:/tasks'' \<mapsto> \<lparr>content = ''3'', expire_at = Some 60000\<rparr>],
       [RateLimitCheckError ''Connection is closed.''])
   \<and> handleRateLimit (redis_faulty (\<lambda>op. op = OpExec) 5000) 5000 ''9f86d0'' ''GET:/tasks''
      \<lparr>opt_limit = 3, opt_windowMs = 60000\<rparr> Map.empty
    = (Inr True, Map.empty, [RateLimitCheckError ''Connection is closed.''])
   \<and> (\<exists>ex. fst (handleRateLimit (redis_faulty (\<lambda>op. False) 5000) 5000 ''9f86d0'' ''GET:/tasks''
               \<lparr>opt_limit = 3, opt_windowMs = 60000\<rparr>
               [rate_limit_key ''9f86d0'' ''GET:/tasks''
                  \<mapsto> \<lparr>content = ''3'', expire_at = Some 60000\<rparr>]) = Inl ex
            \<and> statusCode ex = 429)"
  using handleRateLimit_fails_open
    [of "redis_faulty (\<lambda>op. op = OpGet) 5000" "''9f86d0''" "''GET:/tasks''"
        "[rate_limit_key ''9f86d0'' ''GET:/tasks'' \<mapsto> \<lparr>content = ''3'', expire_at = Some 60000\<rparr>]"
        5000 "\<lparr>opt_limit = 3, opt_windowMs = 60000\<rparr>"]
  by (simp add: redis_faulty_def guard_simps redis_simps decimal_simps connection_error_def
      errorMessage_def Let_def)

text \<open>
  The transaction on a key that is present and holds an integer below the largest one,
  for a window of at least one second: the counter is incremented and the expiry is
  set to a full window from now, whatever expiry the key had.
\<close>

lemma transaction_on_present_key:
  assumes "live db now k = Some e" and "string2ll (content e) = Some n" and "n \<noteq> LLONG_MAX"
    and "0 < seconds"
  shows "redis_MULTI_incr_expire db now k seconds
           = ([RInt (n + 1), RInt 1],
              db(k \<mapsto> \<lparr>content = show_int (n + 1), expire_at = Some (now + seconds * 1000)\<rparr>))"
proof -
  have incr: "redis_INCR db now k = (RInt (n + 1), db(k \<mapsto> e\<lparr>content := show_int (n + 1)\<rparr>))"
    using assms(1,2,3) by (simp add: redis_INCR_def)
  have alive: "live (db(k \<mapsto> e\<lparr>content := show_int (n + 1)\<rparr>)) now k
                 = Some (e\<lparr>content := show_int (n + 1)\<rparr>)"
    using assms(1) by (auto simp: live_def split: option.splits if_splits)
  have entry: "e\<lparr>content := c, expire_at := x\<rparr> = \<lparr>content = c, expire_at = x\<rparr>" for c x
    by (cases e) simp
  show ?thesis
    using assms(4)
    by (simp add: redis_MULTI_incr_expire_def incr redis_EXPIRE_def alive Let_def entry)
qed

text \<open>
  C1. The transaction issued on an admitted request, traced on the reference store.
  Policy \<open>limit = 3\<close>, \<open>windowMs = 60000\<close>; the first request arrives at time 0 and creates
  the counter. At time 30000 the counter holds 1 and has 30 seconds to live. The second
  request, admitted at time 30000, leaves the counter at 2 with 60 seconds to live:
  \<^verbatim>\<open>EXPIRE\<close> has set the expiry again on a key that already had one.
\<close>

theorem expire_rearms_existing_key:
  "(case handleRateLimit (redis_at 0) 0 ''9f86d0'' ''GET:/tasks''
           \<lparr>opt_limit = 3, opt_windowMs = 60000\<rparr> Map.empty of
      (r1, db1, _) \<Rightarrow>
        (case handleRateLimit (redis_at 30000) 30000 ''9f86d0'' ''GET:/tasks''
               \<lparr>opt_limit = 3, opt_windowMs = 60000\<rparr> db1 of
           (r2, db2, _) \<Rightarrow>
             r1 = Inr True \<and> r2 = Inr True
             \<and> redis_GET db1 30000 (rate_limit_key ''9f86d0'' ''GET:/tasks'') = Some ''1''
             \<and> redis_TTL db1 30000 (rate_limit_key ''9f86d0'' ''GET:/tasks'') = 30
             \<and> redis_GET db2 30000 (rate_limit_key ''9f86d0'' ''GET:/tasks'') = Some ''2''
             \<and> redis_TTL db2 30000 (rate_limit_key ''9f86d0'' ''GET:/tasks'') = 60))"
  by (simp add: guard_simps redis_simps decimal_simps Let_def)

section \<open>Properties of the JSON round trip\<close>

lemmas serialize_ref = serialize.simps(7)


lemma materialize_extends:
  "\<exists>ext. snd (materialize j h) = h @ ext"
  "\<exists>ext. snd (materialize_list js h) = h @ ext"
  "\<exists>ext. snd (materialize_fields fs h) = h @ ext"
proof (induction j h and js h and fs h rule: materialize_materialize_list_materialize_fields.induct)
  case (5 js h)
  then show ?case by (auto split: prod.splits)
next
  case (6 fs h)
  then show ?case by (auto split: prod.splits)
next
  case (8 j js h)
  then show ?case by (fastforce split: prod.splits)
next
  case (10 k j fs h)
  then show ?case by (fastforce split: prod.splits)
qed simp_all

lemma materialize_length:
  "materialize j h = (v, h1) \<Longrightarrow> length h \<le> length h1"
  "materialize_list js h = (vs, h1) \<Longrightarrow> length h \<le> length h1"
  "materialize_fields fs h = (fs', h1) \<Longrightarrow> length h \<le> length h1"
  using materialize_extends(1) [of j h] materialize_extends(2) [of js h]
    materialize_extends(3) [of fs h]
  by auto

lemma materialize_nth:
  "materialize j h = (v, h1) \<Longrightarrow> a < length h \<Longrightarrow> h1 ! a = h ! a"
  "materialize_list js h = (vs, h1) \<Longrightarrow> a < length h \<Longrightarrow> h1 ! a = h ! a"
  "materialize_fields fs h = (fs', h1) \<Longrightarrow> a < length h \<Longrightarrow> h1 ! a = h ! a"
  using materialize_extends(1) [of j h] materialize_extends(2) [of js h]
    materialize_extends(3) [of fs h]
  by (auto simp: nth_append)

lemma materialize_defined: "\<not> json_omits (fst (materialize j h))"
  by (cases j) (auto simp: json_omits_def split: prod.splits)

lemma materialize_fields_defined:
  "materialize_fields fs h = (fs', h1) \<Longrightarrow> filter (\<lambda>(k, v). \<not> json_omits v) fs' = fs'"
proof (induction fs arbitrary: h fs' h1)
  case Nil
  then show ?case by simp
next
  case (Cons f fs)
  obtain k j where f: "f = (k, j)" by (cases f)
  obtain v ha where m: "materialize j h = (v, ha)" by (cases "materialize j h")
  obtain fs1 hb where ms: "materialize_fields fs ha = (fs1, hb)"
    by (cases "materialize_fields fs ha")
  have "\<not> json_omits v"
    using materialize_defined [of j h] m by simp
  then show ?case
    using Cons.prems Cons.IH [OF ms] by (auto simp: f m ms)
qed

lemma cells_kept_sub:
  "cells_kept lo hi h g \<Longrightarrow> lo \<le> lo' \<Longrightarrow> hi' \<le> hi \<Longrightarrow>
     (\<And>a. lo' \<le> a \<Longrightarrow> a < hi' \<Longrightarrow> h' ! a = h ! a) \<Longrightarrow> cells_kept lo' hi' h' g"
  by (auto simp: cells_kept_def)

lemma serialize_materialize:
  "materialize j h = (v, h1) \<Longrightarrow> cells_kept (length h) (length h1) h1 g \<Longrightarrow>
     (\<forall>a \<in> set stk. a < length h \<or> length h1 \<le> a) \<Longrightarrow> serialize g stk v = Some j"
  "materialize_list js h = (vs, h1) \<Longrightarrow> cells_kept (length h) (length h1) h1 g \<Longrightarrow>
     (\<forall>a \<in> set stk. a < length h \<or> length h1 \<le> a) \<Longrightarrow>
     those (map (serialize g stk) vs) = Some js"
  "materialize_fields fs h = (fs', h1) \<Longrightarrow> cells_kept (length h) (length h1) h1 g \<Longrightarrow>
     (\<forall>a \<in> set stk. a < length h \<or> length h1 \<le> a) \<Longrightarrow>
     those (map (\<lambda>(k, v). map_option (Pair k) (serialize g stk v)) fs') = Some fs"
proof (induction j h and js h and fs h arbitrary: v h1 g stk and vs h1 g stk and fs' h1 g stk
    rule: materialize_materialize_list_materialize_fields.induct)
  case (1 h)
  then show ?case by auto
next
  case (2 b h)
  then show ?case by auto
next
  case (3 n h)
  then show ?case by auto
next
  case (4 s h)
  then show ?case by auto
next
  case (5 js h)
  obtain vs h' where ml: "materialize_list js h = (vs, h')"
    by (cases "materialize_list js h")
  from "5.prems"(1) ml have v: "v = JRef (length h')" and h1: "h1 = h' @ [JArray vs]"
    by auto
  have le: "length h \<le> length h'"
    using materialize_length(2) [OF ml] .
  have kept: "cells_kept (length h) (length h') h' g"
    using "5.prems"(2) by (auto simp: cells_kept_def h1 nth_append)
  have cell: "g ! length h' = JArray vs" and inb: "length h' < length g"
    using "5.prems"(2) le by (auto simp: cells_kept_def h1)
  have fresh: "length h' \<notin> set stk"
    using "5.prems"(3) le by (auto simp: h1)
  have stk: "\<forall>a \<in> set (length h' # stk). a < length h \<or> length h' \<le> a"
    using "5.prems"(3) by (auto simp: h1)
  have "those (map (serialize g (length h' # stk)) vs) = Some js"
    using "5.IH" [OF ml kept stk] .
  then show ?case
    using cell inb fresh by (simp add: v serialize_ref)
next
  case (6 fs h)
  obtain fs' h' where mf: "materialize_fields fs h = (fs', h')"
    by (cases "materialize_fields fs h")
  from "6.prems"(1) mf have v: "v = JRef (length h')" and h1: "h1 = h' @ [JObject fs']"
    by auto
  have le: "length h \<le> length h'"
    using materialize_length(3) [OF mf] .
  have kept: "cells_kept (length h) (length h') h' g"
    using "6.prems"(2) by (auto simp: cells_kept_def h1 nth_append)
  have cell: "g ! length h' = JObject fs'" and inb: "length h' < length g"
    using "6.prems"(2) le by (auto simp: cells_kept_def h1)
  have fresh: "length h' \<notin> set stk"
    using "6.prems"(3) le by (auto simp: h1)
  have stk: "\<forall>a \<in> set (length h' # stk). a < length h \<or> length h' \<le> a"
    using "6.prems"(3) by (auto simp: h1)
  have "those (map (\<lambda>(k, v). map_option (Pair k) (serialize g (length h' # stk) v)) fs') = Some fs"
    using "6.IH" [OF mf kept stk] .
  then show ?case
    using cell inb fresh materialize_fields_defined [OF mf]
    by (simp add: v serialize_ref)
next
  case (7 h)
  then show ?case by auto
next
  case (8 j js h)
  obtain v0 ha where m: "materialize j h = (v0, ha)" by (cases "materialize j h")
  obtain vs0 hb where ml: "materialize_list js ha = (vs0, hb)"
    by (cases "materialize_list js ha")
  from "8.prems"(1) m ml have vs: "vs = v0 # vs0" and h1: "h1 = hb" by auto
  have le1: "length h \<le> length ha" using materialize_length(1) [OF m] .
  have le2: "length ha \<le> length hb" using materialize_length(2) [OF ml] .
  have k1: "cells_kept (length h) (length ha) ha g"
    using "8.prems"(2) le2 materialize_nth(2) [OF ml]
    by (auto simp: cells_kept_def h1)
  have k2: "cells_kept (length ha) (length hb) hb g"
    using "8.prems"(2) le1 by (auto simp: cells_kept_def h1)
  have s1: "\<forall>a \<in> set stk. a < length h \<or> length ha \<le> a"
    using "8.prems"(3) le2 by (auto simp: h1)
  have s2: "\<forall>a \<in> set stk. a < length ha \<or> length hb \<le> a"
    using "8.prems"(3) le1 by (auto simp: h1)
  have "serialize g stk v0 = Some j"
    using "8.IH"(1) [OF m k1 s1] .
  moreover have "those (map (serialize g stk) vs0) = Some js"
    using "8.IH"(2) [OF m [symmetric] ml k2 s2] .
  ultimately show ?case by (simp add: vs)
next
  case (9 h)
  then show ?case by auto
next
  case (10 k j fs h)
  obtain v0 ha where m: "materialize j h = (v0, ha)" by (cases "materialize j h")
  obtain fs0 hb where mf: "materialize_fields fs ha = (fs0, hb)"
    by (cases "materialize_fields fs ha")
  from "10.prems"(1) m mf have fs': "fs' = (k, v0) # fs0" and h1: "h1 = hb" by auto
  have le1: "length h \<le> length ha" using materialize_length(1) [OF m] .
  have le2: "length ha \<le> length hb" using materialize_length(3) [OF mf] .
  have k1: "cells_kept (length h) (length ha) ha g"
    using "10.prems"(2) le2 materialize_nth(3) [OF mf]
    by (auto simp: cells_kept_def h1)
  have k2: "cells_kept (length ha) (length hb) hb g"
    using "10.prems"(2) le1 by (auto simp: cells_kept_def h1)
  have s1: "\<forall>a \<in> set stk. a < length h \<or> length ha \<le> a"
    using "10.prems"(3) le2 by (auto simp: h1)
  have s2: "\<forall>a \<in> set stk. a < length ha \<or> length hb \<le> a"
    using "10.prems"(3) le1 by (auto simp: h1)
  have "serialize g stk v0 = Some j"
    using "10.IH"(1) [OF m k1 s1] .
  moreover have "those (map (\<lambda>(k, v). map_option (Pair k) (serialize g stk v)) fs0) = Some fs"
    using "10.IH"(2) [OF m [symmetric] mf k2 s2] .
  ultimately show ?case by (simp add: fs')
qed

section \<open>Properties of the cache service\<close>

lemma awaited_simps:
  "awaited (Threw e) = Inl e" "awaited (Rejected e) = Inl e" "awaited (Resolved x) = Inr x"
  by (simp_all add: awaited_def)

lemma mem_get:
  "cm_get (mem_manager miss down) k st
     = (if down CmGet k then (Rejected store_unavailable, st)
        else (Resolved (case st k of None \<Rightarrow> miss | Some (v, ttl) \<Rightarrow> v), st))"
  by (simp add: mem_manager_def)

lemma mem_set:
  "cm_set (mem_manager miss down) k v ttl st
     = (if down CmSet k then (Rejected store_unavailable, st)
        else (Resolved (), st(k \<mapsto> (v, ttl))))"
  by (simp add: mem_manager_def)

lemma mem_del:
  "cm_del (mem_manager miss down) k st
     = (if down CmDel k then (Rejected store_unavailable, st) else (Resolved (), st(k := None)))"
  by (simp add: mem_manager_def)

lemmas mem_simps = mem_get mem_set mem_del awaited_simps

lemma expiring_get:
  "cm_get (expiring_manager miss plan now) k st
     = ends (plan CmGet k) (case held st now k of None \<Rightarrow> miss | Some v \<Rightarrow> v) st st"
  by (simp add: expiring_manager_def)

lemma expiring_set:
  "cm_set (expiring_manager miss plan now) k v ttl st
     = ends (plan CmSet k) () st (st(k \<mapsto> (v, now + ttl)))"
  by (simp add: expiring_manager_def)

lemma expiring_del:
  "cm_del (expiring_manager miss plan now) k st = ends (plan CmDel k) () st (st(k := None))"
  by (simp add: expiring_manager_def)

lemmas expiring_simps = expiring_get expiring_set expiring_del awaited_simps ends_def

lemmas fault_simps = healthy_def deletes_fail_def unavailable_def store_unavailable_def
  no_faults_def deletes_reject_def deletes_throw_def

lemmas cache_defs = cache_set_def cache_set_try_def cache_get_def cache_get_try_def
  cache_delete_def cache_delete_try_def cache_has_def cache_has_try_def cache_clear_def
  getNamespacedKey_def catch_and_log_def interpolate_def json_omits_def

text \<open>
  C10. On the reference store, whichever value it answers for a miss: for a non-empty
  key on which the store's \<^verbatim>\<open>set\<close> and \<^verbatim>\<open>get\<close> work, \<^verbatim>\<open>set(k, null)\<close> succeeds, the store
  holds \<^verbatim>\<open>null\<close> itself under the namespaced key (no copy is made) and the key is
  tracked; \<^verbatim>\<open>has(k)\<close> then returns \<^verbatim>\<open>false\<close>, as it does after \<^verbatim>\<open>set(k, undefined)\<close>.
\<close>

theorem has_false_after_set_null:
  assumes "s \<noteq> []" and "\<not> down CmSet (namespace svc @ s)"
    and "\<not> down CmGet (namespace svc @ s)"
  shows "fst (cache_set (mem_manager miss down) (JStr s) JNull ttlSeconds svc) = Inr ()
       \<and> cacheManager (snd (cache_set (mem_manager miss down) (JStr s) JNull ttlSeconds svc))
            (namespace svc @ s) = Some (JNull, ttlSeconds * 1000)
       \<and> namespace svc @ s
            \<in> set (cachedKeys (snd (cache_set (mem_manager miss down) (JStr s) JNull ttlSeconds svc)))
       \<and> cache_has (mem_manager miss down) (JStr s)
               (snd (cache_set (mem_manager miss down) (JStr s) JNull ttlSeconds svc))
           = (Inr False, snd (cache_set (mem_manager miss down) (JStr s) JNull ttlSeconds svc))
       \<and> fst (cache_has (mem_manager miss down) (JStr s)
               (snd (cache_set (mem_manager miss down) (JStr s) JUndefined ttlSeconds svc)))
           = Inr False"
  using assms
  by (auto simp: cache_set_def cache_set_try_def cache_has_def cache_has_try_def
      getNamespacedKey_def mem_simps is_object_def Set_add_def)

theorem has_false_after_set_null_witness:
  "''user:1'' \<noteq> []
   \<and> \<not> healthy CmSet (namespace (new_CacheService (Some ''test'') Map.empty []) @ ''user:1'')
   \<and> \<not> healthy CmGet (namespace (new_CacheService (Some ''test'') Map.empty []) @ ''user:1'')
   \<and> cacheManager (snd (cache_set (mem_manager JUndefined healthy) (JStr ''user:1'') JNull 300
                           (new_CacheService (Some ''test'') Map.empty [])))
        ''taskflow:test:user:1'' = Some (JNull, 300000)
   \<and> cachedKeys (snd (cache_set (mem_manager JUndefined healthy) (JStr ''user:1'') JNull 300
                           (new_CacheService (Some ''test'') Map.empty [])))
        = [''taskflow:test:user:1'']
   \<and> fst (cache_has (mem_manager JUndefined healthy) (JStr ''user:1'')
            (snd (cache_set (mem_manager JUndefined healthy) (JStr ''user:1'') JNull 300
                    (new_CacheService (Some ''test'') Map.empty [])))) = Inr False
   \<and> fst (cache_has (mem_manager JUndefined healthy) (JStr ''user:1'')
            (new_CacheService (Some ''test'') Map.empty [])) = Inr False
   \<and> fst (cache_has (mem_manager JUndefined healthy) (JStr ''user:1'')
            (snd (cache_set (mem_manager JUndefined healthy) (JStr ''user:1'') (JNum 0) 300
                    (new_CacheService (Some ''test'') Map.empty [])))) = Inr True"
  using has_false_after_set_null
    [of "''user:1''" healthy "new_CacheService (Some ''test'') Map.empty []" JUndefined 300]
  by (simp add: cache_defs new_CacheService_def mem_simps fault_simps is_object_def Set_add_def)

subsection \<open>Copies on write and on read\<close>

lemma serialize_ref_shape:
  assumes "serialize h stk (JRef a) = Some j"
  shows "(\<exists>js. j = JsArr js) \<or> (\<exists>fs. j = JsObj fs)"
  using assms
  by (auto simp: serialize_ref split: if_splits jsobj.splits)

lemma materialize_ref:
  assumes "(\<exists>js. j = JsArr js) \<or> (\<exists>fs. j = JsObj fs)" and "materialize j h = (v, h1)"
  shows "\<exists>b. v = JRef b \<and> length h \<le> b \<and> b < length h1"
proof -
  from assms(1) show ?thesis
  proof
    assume "\<exists>js. j = JsArr js"
    then obtain js where j: "j = JsArr js" ..
    obtain vs h' where ml: "materialize_list js h = (vs, h')"
      by (cases "materialize_list js h")
    show ?thesis
      using assms(2) materialize_length(2) [OF ml] by (auto simp: j ml)
  next
    assume "\<exists>fs. j = JsObj fs"
    then obtain fs where j: "j = JsObj fs" ..
    obtain fs' h' where mf: "materialize_fields fs h = (fs', h')"
      by (cases "materialize_fields fs h")
    show ?thesis
      using assms(2) materialize_length(3) [OF mf] by (auto simp: j mf)
  qed
qed

lemma cells_kept_refl: "cells_kept lo (length h) h h"
  by (simp add: cells_kept_def)

lemma stored_copy_stable:
  assumes "materialize j h = (v, h1)" and "cells_kept (length h) (length h1) h1 g"
  shows "serialize g [] v = Some j"
  using serialize_materialize(1) [OF assms, of "[]"] by simp

lemma clone_of_object:
  assumes "serialize h [] (JRef a) = Some j"
  shows "\<exists>b h1. json_clone h (JRef a) = Inr (JRef b, h1) \<and> materialize j h = (JRef b, h1)
           \<and> length h \<le> b \<and> b < length h1 \<and> serialize h1 [] (JRef b) = Some j"
proof -
  obtain v h1 where m: "materialize j h = (v, h1)"
    by (cases "materialize j h")
  obtain b where b: "v = JRef b" "length h \<le> b" "b < length h1"
    using materialize_ref [OF serialize_ref_shape [OF assms] m] by auto
  have "serialize h1 [] v = Some j"
    using stored_copy_stable [OF m cells_kept_refl] .
  then show ?thesis
    using m b assms by (auto simp: json_clone_def)
qed





subsection \<open>The tracking set\<close>

lemma catch_and_log_tracking:
  "namespace (snd (catch_and_log line key fallback e svc)) = namespace svc"
  "cachedKeys (snd (catch_and_log line key fallback e svc)) = cachedKeys svc"
  by (simp_all add: catch_and_log_def split: sum.splits)

lemma set_tracking:
  "namespace (snd (cache_set cm key val ttlSeconds svc)) = namespace svc"
  "cachedKeys (snd (cache_set cm key val ttlSeconds svc)) = cachedKeys svc
   \<or> (\<exists>s. key = JStr s \<and> s \<noteq> []
          \<and> cachedKeys (snd (cache_set cm key val ttlSeconds svc))
              = Set_add (namespace svc @ s) (cachedKeys svc))"
  by (auto simp: cache_set_def cache_set_try_def getNamespacedKey_def catch_and_log_tracking
      split: prod.splits sum.splits jsval.splits if_splits)

lemma get_tracking:
  "namespace (snd (cache_get cm key svc)) = namespace svc"
  "cachedKeys (snd (cache_get cm key svc)) = cachedKeys svc"
  by (auto simp: cache_get_def cache_get_try_def catch_and_log_tracking
      split: prod.splits sum.splits if_splits)

lemma has_tracking:
  "namespace (snd (cache_has cm key svc)) = namespace svc"
  "cachedKeys (snd (cache_has cm key svc)) = cachedKeys svc"
  by (auto simp: cache_has_def cache_has_try_def catch_and_log_tracking
      split: prod.splits sum.splits if_splits)

lemma delete_tracking:
  "namespace (snd (cache_delete cm key svc)) = namespace svc"
  "cachedKeys (snd (cache_delete cm key svc)) = cachedKeys svc
   \<or> (\<exists>s. key = JStr s \<and> s \<noteq> []
          \<and> cachedKeys (snd (cache_delete cm key svc))
              = Set_delete (namespace svc @ s) (cachedKeys svc))"
  by (auto simp: cache_delete_def cache_delete_try_def getNamespacedKey_def
      catch_and_log_tracking split: prod.splits sum.splits jsval.splits if_splits)

lemma clear_tracking:
  "namespace (snd (cache_clear cm svc)) = namespace svc"
  "cachedKeys (snd (cache_clear cm svc))
     = (case fst (clear_deletes cm (cachedKeys svc) (cacheManager svc)) of
          Inr u \<Rightarrow> []
        | Inl e \<Rightarrow> cachedKeys svc)"
  by (auto simp: cache_clear_def split: prod.splits sum.splits)

lemma mget_all_tracking:
  "namespace (snd (mget_all cm ks svc)) = namespace svc
   \<and> cachedKeys (snd (mget_all cm ks svc)) = cachedKeys svc"
proof (induction ks arbitrary: svc)
  case Nil
  show ?case by simp
next
  case (Cons k ks)
  obtain r svc1 where g: "cache_get cm k svc = (r, svc1)"
    by (cases "cache_get cm k svc")
  obtain rs svc2 where m: "mget_all cm ks svc1 = (rs, svc2)"
    by (cases "mget_all cm ks svc1")
  show ?case
    using Cons.IH [of svc1] get_tracking [of cm k svc]
    by (simp add: g m)
qed

lemma mget_tracking:
  "namespace (snd (cache_mget cm keys svc)) = namespace svc"
  "cachedKeys (snd (cache_mget cm keys svc)) = cachedKeys svc"
proof -
  have "namespace (snd (cache_mget cm keys svc)) = namespace svc
        \<and> cachedKeys (snd (cache_mget cm keys svc)) = cachedKeys svc"
  proof (cases keys)
    case (NotAnArray x)
    then show ?thesis by (simp add: cache_mget_def)
  next
    case (ArrayOf ks)
    obtain r svc1 where m: "mget_all cm ks svc = (r, svc1)"
      by (cases "mget_all cm ks svc")
    show ?thesis
      using mget_all_tracking [of cm ks svc]
      by (cases r) (simp_all add: cache_mget_def ArrayOf m split: option.splits)
  qed
  then show "namespace (snd (cache_mget cm keys svc)) = namespace svc"
    and "cachedKeys (snd (cache_mget cm keys svc)) = cachedKeys svc"
    by simp_all
qed

lemma namespaced_set:
  assumes "namespaced (namespace svc) (cachedKeys svc)"
  shows "namespaced (namespace svc) (cachedKeys (snd (cache_set cm key val ttlSeconds svc)))"
  using assms set_tracking(2) [of cm key val ttlSeconds svc]
  by (auto simp: namespaced_def Set_add_def split: if_splits)

lemma namespaced_delete:
  assumes "namespaced (namespace svc) (cachedKeys svc)"
  shows "namespaced (namespace svc) (cachedKeys (snd (cache_delete cm key svc)))"
  using assms delete_tracking(2) [of cm key svc]
  by (auto simp: namespaced_def Set_delete_def)

lemma namespaced_clear:
  assumes "namespaced (namespace svc) (cachedKeys svc)"
  shows "namespaced (namespace svc) (cachedKeys (snd (cache_clear cm svc)))"
  using assms by (auto simp: clear_tracking(2) namespaced_def split: sum.splits)

lemma mset_all_tracking:
  "namespaced (namespace svc) (cachedKeys svc) \<Longrightarrow>
     namespace (snd (mset_all cm es ttlSeconds svc)) = namespace svc
     \<and> namespaced (namespace svc) (cachedKeys (snd (mset_all cm es ttlSeconds svc)))"
proof (induction es arbitrary: svc)
  case Nil
  then show ?case by simp
next
  case (Cons e es)
  show ?case
  proof (cases e)
    case (NotIterable x)
    then show ?thesis using Cons.prems by simp
  next
    case (Entry key val)
    let ?s1 = "snd (cache_set cm key val ttlSeconds svc)"
    have ns: "namespace ?s1 = namespace svc"
      by (rule set_tracking(1))
    have "namespaced (namespace ?s1) (cachedKeys ?s1)"
      using namespaced_set [OF Cons.prems] ns by simp
    from Cons.IH [OF this]
    have step: "namespace (snd (mset_all cm es ttlSeconds ?s1)) = namespace svc
          \<and> namespaced (namespace svc) (cachedKeys (snd (mset_all cm es ttlSeconds ?s1)))"
      by (simp add: ns)
    obtain r svc1 where c: "cache_set cm key val ttlSeconds svc = (r, svc1)"
      by (cases "cache_set cm key val ttlSeconds svc")
    obtain rs svc2 where m: "mset_all cm es ttlSeconds svc1 = (rs, svc2)"
      by (cases "mset_all cm es ttlSeconds svc1")
    show ?thesis
      using step by (simp add: Entry c m)
  qed
qed

lemma mset_tracking:
  "namespaced (namespace svc) (cachedKeys svc) \<Longrightarrow>
     namespace (snd (cache_mset cm entries ttlSeconds svc)) = namespace svc
     \<and> namespaced (namespace svc) (cachedKeys (snd (cache_mset cm entries ttlSeconds svc)))"
proof (cases entries)
  case (NotAnArray x)
  assume "namespaced (namespace svc) (cachedKeys svc)"
  then show ?thesis by (simp add: cache_mset_def NotAnArray)
next
  case (ArrayOf es)
  assume inv: "namespaced (namespace svc) (cachedKeys svc)"
  obtain out svc1 where m: "mset_all cm es ttlSeconds svc = (out, svc1)"
    by (cases "mset_all cm es ttlSeconds svc")
  show ?thesis
    using mset_all_tracking [OF inv, of cm es ttlSeconds]
    by (simp add: cache_mset_def ArrayOf m)
qed

lemma reachable_namespaced:
  "reachable cm svc \<Longrightarrow>
     (\<exists>env. namespace svc = ''taskflow:'' @ env @ '':'')
     \<and> namespaced (namespace svc) (cachedKeys svc)"
proof (induction rule: reachable.induct)
  case (r_new node_env st h)
  show ?case by (simp add: new_CacheService_def namespaced_def)
next
  case (r_set svc key val ttlSeconds)
  then show ?case
    using namespaced_set [of svc cm key val ttlSeconds] by (simp add: set_tracking(1))
next
  case (r_get svc key)
  then show ?case by (simp add: get_tracking)
next
  case (r_delete svc key)
  then show ?case
    using namespaced_delete [of svc cm key] by (simp add: delete_tracking(1))
next
  case (r_clear svc)
  then show ?case
    using namespaced_clear [of svc cm] by (simp add: clear_tracking(1))
next
  case (r_has svc key)
  then show ?case by (simp add: has_tracking)
next
  case (r_mset svc entries ttlSeconds)
  then show ?case
    using mset_tracking [of svc cm entries ttlSeconds] by simp
next
  case (r_mget svc keys)
  then show ?case by (simp add: mget_tracking)
next
  case (r_world svc st h)
  then show ?case by simp
qed

text \<open>
  C9. In every state the service can reach from its constructor, the namespace is
  \<^verbatim>\<open>taskflow:\<close>, an environment name and a colon, and every element of \<open>cachedKeys\<close> is the
  namespace followed by a non-empty logical key. The methods change \<open>cachedKeys\<close> only
  so: \<^verbatim>\<open>set\<close> leaves it or adds the namespaced form of its key, \<^verbatim>\<open>delete\<close> leaves it or
  removes the namespaced form of its key, \<^verbatim>\<open>clear\<close> empties it (or, when a delete throws
  at the call, leaves it as it is), and \<^verbatim>\<open>get\<close>, \<^verbatim>\<open>has\<close> and \<^verbatim>\<open>mget\<close> leave it as it is.
\<close>

theorem tracked_keys_are_namespaced:
  assumes "reachable cm svc"
  shows "(\<exists>env. namespace svc = ''taskflow:'' @ env @ '':'')
       \<and> (\<forall>k \<in> set (cachedKeys svc). \<exists>logical. logical \<noteq> [] \<and> k = namespace svc @ logical)
       \<and> (cachedKeys (snd (cache_set cm key val ttlSeconds svc)) = cachedKeys svc
          \<or> (\<exists>s. key = JStr s \<and> s \<noteq> []
                 \<and> cachedKeys (snd (cache_set cm key val ttlSeconds svc))
                     = Set_add (namespace svc @ s) (cachedKeys svc)))
       \<and> (cachedKeys (snd (cache_delete cm key svc)) = cachedKeys svc
          \<or> (\<exists>s. key = JStr s \<and> s \<noteq> []
                 \<and> cachedKeys (snd (cache_delete cm key svc))
                     = Set_delete (namespace svc @ s) (cachedKeys svc)))
       \<and> cachedKeys (snd (cache_clear cm svc))
           = (case fst (clear_deletes cm (cachedKeys svc) (cacheManager svc)) of
                Inr u \<Rightarrow> []
              | Inl e \<Rightarrow> cachedKeys svc)
       \<and> cachedKeys (snd (cache_get cm key svc)) = cachedKeys svc
       \<and> cachedKeys (snd (cache_has cm key svc)) = cachedKeys svc
       \<and> cachedKeys (snd (cache_mget cm keys svc)) = cachedKeys svc"
  using reachable_namespaced [OF assms] set_tracking(2) [of cm key val ttlSeconds svc]
    delete_tracking(2) [of cm key svc]
  by (simp add: namespaced_def clear_tracking get_tracking has_tracking mget_tracking)

theorem tracked_keys_are_namespaced_witness:
  "reachable (mem_manager JNull healthy)
      (snd (cache_set (mem_manager JNull healthy) (JStr ''a'') (JNum 1) 300
              (new_CacheService (Some ''test'') Map.empty [])))
   \<and> namespace (snd (cache_set (mem_manager JNull healthy) (JStr ''a'') (JNum 1) 300
              (new_CacheService (Some ''test'') Map.empty []))) = ''taskflow:'' @ ''test'' @ '':''
   \<and> cachedKeys (snd (cache_set (mem_manager JNull healthy) (JStr ''a'') (JNum 1) 300
              (new_CacheService (Some ''test'') Map.empty []))) = [''taskflow:test:'' @ ''a'']
   \<and> cachedKeys (snd (cache_delete (mem_manager JNull healthy) (JStr ''a'')
         (snd (cache_set (mem_manager JNull healthy) (JStr ''a'') (JNum 1) 300
              (new_CacheService (Some ''test'') Map.empty []))))) = []
   \<and> cachedKeys (snd (cache_clear (mem_manager JNull healthy)
         (snd (cache_set (mem_manager JNull healthy) (JStr ''a'') (JNum 1) 300
              (new_CacheService (Some ''test'') Map.empty []))))) = []"
proof -
  have r: "reachable (mem_manager JNull healthy)
      (snd (cache_set (mem_manager JNull healthy) (JStr ''a'') (JNum 1) 300
              (new_CacheService (Some ''test'') Map.empty [])))"
    by (rule r_set [OF r_new])
  show ?thesis
    using r tracked_keys_are_namespaced [OF r, of "JStr ''a''" "JNum 1" 300 "ArrayOf []"]
    by (simp add: cache_defs new_CacheService_def mem_simps fault_simps is_object_def
        Set_add_def Set_delete_def)
qed

text \<open>
  The one part of the claim as the specification words it that fails is that \<^verbatim>\<open>clear\<close>
  empties the set: when a delete throws at the call, the tracked key is still tracked
  after \<^verbatim>\<open>clear\<close>.
\<close>

theorem clear_keeps_tracking_counterexample:
  "cachedKeys (snd (cache_set (expiring_manager JNull deletes_throw 0) (JStr ''a'') (JNum 1) 300
                      (new_CacheService (Some ''test'') Map.empty [])))
     = [''taskflow:test:a'']
   \<and> cache_clear (expiring_manager JNull deletes_throw 0)
         (snd (cache_set (expiring_manager JNull deletes_throw 0) (JStr ''a'') (JNum 1) 300
                 (new_CacheService (Some ''test'') Map.empty [])))
     = (Inr (),
        \<lparr> namespace = ''taskflow:test:'', cachedKeys = [''taskflow:test:a''],
          cacheManager = [''taskflow:test:a'' \<mapsto> (JNum 1, 300000)],
          logger = [CacheSet ''taskflow:test:a'' 300, ErrorClearing ''store unavailable''],
          js_heap = [] \<rparr>)
   \<and> [''taskflow:test:a''] \<noteq> ([] :: string list)"
  by (simp add: cache_defs new_CacheService_def expiring_simps fault_simps errorMessage_def
      is_object_def Set_add_def)

subsection \<open>Growing heaps\<close>

lemma those_map_mono:
  assumes "those (map f xs) = Some ys"
    and "\<And>x y. x \<in> set xs \<Longrightarrow> f x = Some y \<Longrightarrow> g x = Some y"
  shows "those (map g xs) = Some ys"
  using assms
proof (induction xs arbitrary: ys)
  case Nil
  then show ?case by simp
next
  case (Cons x xs)
  from Cons.prems(1) obtain y zs where y: "f x = Some y" and zs: "those (map f xs) = Some zs"
    and ys: "ys = y # zs"
    by (auto split: option.splits)
  have "g x = Some y"
    using Cons.prems(2) [of x y] y by simp
  moreover have "those (map g xs) = Some zs"
    using Cons.IH [OF zs] Cons.prems(2) by simp
  ultimately show ?case by (simp add: ys)
qed

lemma serialize_append:
  "serialize h stk v = Some j \<Longrightarrow> serialize (h @ ext) stk v = Some j"
proof (induction h stk v arbitrary: j rule: serialize.induct)
  case (7 h stk a)
  from "7.prems" have ok: "\<not> (a \<in> set stk \<or> length h \<le> a)"
    by (auto simp: serialize_ref split: if_splits)
  then have cell: "(h @ ext) ! a = h ! a" and ok': "\<not> (a \<in> set stk \<or> length (h @ ext) \<le> a)"
    by (auto simp: nth_append)
  show ?case
  proof (cases "h ! a")
    case (JArray vs)
    from "7.prems" ok JArray obtain js where j: "j = JsArr js"
      and js: "those (map (serialize h (a # stk)) vs) = Some js"
      by (auto simp: serialize_ref)
    have "those (map (serialize (h @ ext) (a # stk)) vs) = Some js"
      using js "7.IH"(2) [OF ok JArray] by (rule those_map_mono)
    then show ?thesis
      using ok' cell JArray by (simp add: serialize_ref j)
  next
    case (JObject fs)
    let ?fs = "filter (\<lambda>(k, v). \<not> json_omits v) fs"
    from "7.prems" ok JObject obtain ps where j: "j = JsObj ps"
      and ps: "those (map (\<lambda>(k, v). map_option (Pair k) (serialize h (a # stk) v)) ?fs) = Some ps"
      by (auto simp: serialize_ref)
    have "those (map (\<lambda>(k, v). map_option (Pair k) (serialize (h @ ext) (a # stk) v)) ?fs) = Some ps"
      using ps
    proof (rule those_map_mono)
      fix x y
      assume x: "x \<in> set ?fs"
        and y: "(case x of (k, v) \<Rightarrow> map_option (Pair k) (serialize h (a # stk) v)) = Some y"
      obtain k v where kv: "x = (k, v)" by (cases x)
      from y kv obtain j' where j': "serialize h (a # stk) v = Some j'" and y': "y = (k, j')"
        by auto
      have "serialize (h @ ext) (a # stk) v = Some j'"
        using "7.IH"(1) [OF ok JObject x kv [symmetric] j'] .
      then show "(case x of (k, v) \<Rightarrow> map_option (Pair k) (serialize (h @ ext) (a # stk) v)) = Some y"
        by (simp add: kv y')
    qed
    then show ?thesis
      using ok' cell JObject by (simp add: serialize_ref j)
  qed
qed simp_all






subsection \<open>Which errors reach the caller\<close>

lemmas method_defs = cache_set_def cache_set_try_def cache_get_def cache_get_try_def
  cache_delete_def cache_delete_try_def cache_has_def cache_has_try_def
  getNamespacedKey_def catch_and_log_def interpolate_def








lemma cache_clear_returns: "fst (cache_clear cm svc) = Inr ()"
  by (simp add: cache_clear_def split: prod.splits sum.splits)












subsection \<open>What \<^verbatim>\<open>get\<close> answers\<close>








subsection \<open>What \<^verbatim>\<open>clear\<close> leaves behind\<close>

text \<open>
  With a cache manager whose \<open>del\<close> never throws at the call, every delete is issued:
  the only lines logged are the warnings of rejected deletes of tracked keys.
\<close>

lemma clear_deletes_no_throw:
  assumes "\<forall>k st e. fst (cm_del cm k st) \<noteq> Threw e"
  shows "fst (clear_deletes cm ks st) = Inr ()
         \<and> (\<forall>l \<in> set (snd (snd (clear_deletes cm ks st))).
               \<exists>k m. l = FailedToDelete k m \<and> k \<in> set ks)"
proof (induction ks arbitrary: st)
  case Nil
  show ?case by simp
next
  case (Cons k ks)
  obtain out st' where d: "cm_del cm k st = (out, st')"
    by (cases "cm_del cm k st")
  obtain r st'' lg where c: "clear_deletes cm ks st' = (r, st'', lg)"
    by (cases "clear_deletes cm ks st'")
  have r: "r = Inr ()" and lg: "\<forall>l \<in> set lg. \<exists>k m. l = FailedToDelete k m \<and> k \<in> set ks"
    using Cons.IH [of st'] c by simp_all
  show ?case
  proof (cases out)
    case (Threw e)
    then show ?thesis
      using assms d by (metis fst_conv)
  next
    case (Rejected e)
    then show ?thesis
      using r lg by (auto simp: d c)
  next
    case (Resolved u)
    then show ?thesis
      using r lg by (auto simp: d c)
  qed
qed

lemma clear_deletes_warnings:
  "\<forall>l \<in> set (snd (snd (clear_deletes cm ks st))). \<exists>k m. l = FailedToDelete k m"
proof (induction ks arbitrary: st)
  case Nil
  show ?case by simp
next
  case (Cons k ks)
  obtain out st' where d: "cm_del cm k st = (out, st')"
    by (cases "cm_del cm k st")
  obtain r st'' lg where c: "clear_deletes cm ks st' = (r, st'', lg)"
    by (cases "clear_deletes cm ks st'")
  have lg: "\<forall>l \<in> set lg. \<exists>k m. l = FailedToDelete k m"
    using Cons.IH [of st'] c by simp
  show ?case
    using lg by (cases out) (auto simp: d c)
qed

lemma clear_first_delete_throws:
  assumes "cachedKeys svc = k # ks"
    and "cm_del cm k (cacheManager svc) = (Threw e, st')"
  shows "cache_clear cm svc
       = (Inr (), svc\<lparr>cacheManager := st',
                      logger := logger svc @ [ErrorClearing (errorMessage e)]\<rparr>)"
  using assms by (simp add: cache_clear_def)

text \<open>
  On the store with expiry, when no delete of a tracked key throws at the call: the
  keys whose delete took effect are gone, the others are as they were, and there is a
  warning for each delete that rejected.
\<close>

lemma clear_deletes_expiring:
  assumes "\<forall>k \<in> set ks. plan CmDel k \<noteq> ThrowsAtCall"
  shows "clear_deletes (expiring_manager miss plan now) ks st
     = (Inr (),
        (\<lambda>k. if k \<in> set ks \<and> (plan CmDel k = Works \<or> plan CmDel k = RejectsAfterEffect)
              then None else st k),
        map (\<lambda>k. FailedToDelete k ''store unavailable'') (filter (\<lambda>k. plan CmDel k \<noteq> Works) ks))"
  using assms
proof (induction ks arbitrary: st)
  case Nil
  show ?case by simp
next
  case (Cons k ks)
  have rest: "\<forall>k \<in> set ks. plan CmDel k \<noteq> ThrowsAtCall"
    using Cons.prems by simp
  have k: "plan CmDel k \<noteq> ThrowsAtCall"
    using Cons.prems by simp
  show ?case
    using k
    by (cases "plan CmDel k")
      (auto simp: Cons.IH [OF rest] expiring_del ends_def store_unavailable_def errorMessage_def
        fun_eq_iff)
qed

lemma clear_deletes_expiring_throw:
  assumes "\<exists>k \<in> set ks. plan CmDel k = ThrowsAtCall"
  shows "\<exists>st' warnings. clear_deletes (expiring_manager miss plan now) ks st
           = (Inl store_unavailable, st', warnings)"
  using assms
proof (induction ks arbitrary: st)
  case Nil
  then show ?case by simp
next
  case (Cons k ks)
  show ?case
  proof (cases "plan CmDel k = ThrowsAtCall")
    case True
    then show ?thesis
      by (simp add: expiring_del ends_def)
  next
    case False
    then have "\<exists>k \<in> set ks. plan CmDel k = ThrowsAtCall"
      using Cons.prems by auto
    note ih = Cons.IH [OF this]
    show ?thesis
    proof (cases "plan CmDel k")
      case Works
      obtain st' w where "clear_deletes (expiring_manager miss plan now) ks (st(k := None))
          = (Inl store_unavailable, st', w)"
        using ih [of "st(k := None)"] by blast
      then show ?thesis
        by (simp add: expiring_del ends_def Works)
    next
      case ThrowsAtCall
      with False show ?thesis by simp
    next
      case RejectsUntouched
      obtain st' w where "clear_deletes (expiring_manager miss plan now) ks st
          = (Inl store_unavailable, st', w)"
        using ih [of st] by blast
      then show ?thesis
        by (simp add: expiring_del ends_def RejectsUntouched)
    next
      case RejectsAfterEffect
      obtain st' w where "clear_deletes (expiring_manager miss plan now) ks (st(k := None))
          = (Inl store_unavailable, st', w)"
        using ih [of "st(k := None)"] by blast
      then show ?thesis
        by (simp add: expiring_del ends_def RejectsAfterEffect)
    qed
  qed
qed

text \<open>
  Claim C7, as the code has it.

  \<^item> \<^verbatim>\<open>clear\<close> returns, for every cache manager and state of the service.
  \<^item> With a cache manager whose \<open>del\<close> never throws at the call (it resolves or rejects),
    the tracking set is empty afterwards, whatever deletes rejected; the log gets a
    warning for each of them, each about a tracked key, and then \<^verbatim>\<open>Cache cleared\<close>.
  \<^item> When the \<open>del\<close> of the first tracked key throws at the call, the outer \<^verbatim>\<open>catch\<close> logs
    \<^verbatim>\<open>Error clearing cache\<close> and nothing else happens: the tracking set is as it was.
  \<^item> On the store with expiry and any plan of faults: when no delete of a tracked key
    throws at the call, the tracking set is empty afterwards, every tracked key whose
    delete took effect is absent from the store, every tracked key whose delete did not
    work has its warning in the log, and the keys that were not tracked are as they
    were; when the delete of some tracked key throws at the call, the tracking set is
    as it was and the log gets \<^verbatim>\<open>Error clearing cache\<close> and no \<^verbatim>\<open>Cache cleared\<close>.

  Nothing is said of the store at a key whose delete rejected: that is the store's
  business.
\<close>

theorem clear_resets_tracking_unless_a_delete_throws:
  "fst (cache_clear cm svc) = Inr ()
   \<and> ((\<forall>k st e. fst (cm_del cm k st) \<noteq> Threw e) \<longrightarrow>
        cachedKeys (snd (cache_clear cm svc)) = []
        \<and> (\<exists>warnings.
             logger (snd (cache_clear cm svc)) = logger svc @ warnings @ [CacheCleared]
             \<and> (\<forall>l \<in> set warnings. \<exists>k m. l = FailedToDelete k m \<and> k \<in> set (cachedKeys svc))))
   \<and> (\<forall>k ks e st'.
        cachedKeys svc = k # ks \<and> cm_del cm k (cacheManager svc) = (Threw e, st') \<longrightarrow>
        cache_clear cm svc
          = (Inr (), svc\<lparr>cacheManager := st',
                         logger := logger svc @ [ErrorClearing (errorMessage e)]\<rparr>))
   \<and> ((\<forall>k \<in> set (cachedKeys esvc). plan CmDel k \<noteq> ThrowsAtCall) \<longrightarrow>
        cachedKeys (snd (cache_clear (expiring_manager miss plan now) esvc)) = []
        \<and> (\<forall>k \<in> set (cachedKeys esvc).
             (plan CmDel k = Works \<or> plan CmDel k = RejectsAfterEffect \<longrightarrow>
                cacheManager (snd (cache_clear (expiring_manager miss plan now) esvc)) k = None)
             \<and> (plan CmDel k \<noteq> Works \<longrightarrow>
                  FailedToDelete k ''store unavailable''
                    \<in> set (logger (snd (cache_clear (expiring_manager miss plan now) esvc)))))
        \<and> (\<forall>k. k \<notin> set (cachedKeys esvc) \<longrightarrow>
             cacheManager (snd (cache_clear (expiring_manager miss plan now) esvc)) k
               = cacheManager esvc k))
   \<and> ((\<exists>k \<in> set (cachedKeys esvc). plan CmDel k = ThrowsAtCall) \<longrightarrow>
        cachedKeys (snd (cache_clear (expiring_manager miss plan now) esvc)) = cachedKeys esvc
        \<and> (\<exists>warnings.
             logger (snd (cache_clear (expiring_manager miss plan now) esvc))
               = logger esvc @ [ErrorClearing ''store unavailable''] @ warnings
             \<and> CacheCleared \<notin> set warnings))"
proof -
  have returns: "fst (cache_clear cm svc) = Inr ()"
    by (rule cache_clear_returns)
  have no_throw: "(\<forall>k st e. fst (cm_del cm k st) \<noteq> Threw e) \<longrightarrow>
        cachedKeys (snd (cache_clear cm svc)) = []
        \<and> (\<exists>warnings.
             logger (snd (cache_clear cm svc)) = logger svc @ warnings @ [CacheCleared]
             \<and> (\<forall>l \<in> set warnings. \<exists>k m. l = FailedToDelete k m \<and> k \<in> set (cachedKeys svc)))"
  proof
    assume a: "\<forall>k st e. fst (cm_del cm k st) \<noteq> Threw e"
    obtain r st' lg where c: "clear_deletes cm (cachedKeys svc) (cacheManager svc) = (r, st', lg)"
      by (cases "clear_deletes cm (cachedKeys svc) (cacheManager svc)")
    have r: "r = Inr ()"
      and lg: "\<forall>l \<in> set lg. \<exists>k m. l = FailedToDelete k m \<and> k \<in> set (cachedKeys svc)"
      using clear_deletes_no_throw [OF a, of "cachedKeys svc" "cacheManager svc"] c by simp_all
    have "cachedKeys (snd (cache_clear cm svc)) = []"
      by (simp add: cache_clear_def c r)
    moreover have "logger (snd (cache_clear cm svc)) = logger svc @ lg @ [CacheCleared]"
      by (simp add: cache_clear_def c r)
    ultimately show "cachedKeys (snd (cache_clear cm svc)) = []
        \<and> (\<exists>warnings.
             logger (snd (cache_clear cm svc)) = logger svc @ warnings @ [CacheCleared]
             \<and> (\<forall>l \<in> set warnings. \<exists>k m. l = FailedToDelete k m \<and> k \<in> set (cachedKeys svc)))"
      using lg by blast
  qed
  have first: "\<forall>k ks e st'.
        cachedKeys svc = k # ks \<and> cm_del cm k (cacheManager svc) = (Threw e, st') \<longrightarrow>
        cache_clear cm svc
          = (Inr (), svc\<lparr>cacheManager := st',
                         logger := logger svc @ [ErrorClearing (errorMessage e)]\<rparr>)"
    using clear_first_delete_throws [of svc _ _ cm] by blast
  have issued: "(\<forall>k \<in> set (cachedKeys esvc). plan CmDel k \<noteq> ThrowsAtCall) \<longrightarrow>
        cachedKeys (snd (cache_clear (expiring_manager miss plan now) esvc)) = []
        \<and> (\<forall>k \<in> set (cachedKeys esvc).
             (plan CmDel k = Works \<or> plan CmDel k = RejectsAfterEffect \<longrightarrow>
                cacheManager (snd (cache_clear (expiring_manager miss plan now) esvc)) k = None)
             \<and> (plan CmDel k \<noteq> Works \<longrightarrow>
                  FailedToDelete k ''store unavailable''
                    \<in> set (logger (snd (cache_clear (expiring_manager miss plan now) esvc)))))
        \<and> (\<forall>k. k \<notin> set (cachedKeys esvc) \<longrightarrow>
             cacheManager (snd (cache_clear (expiring_manager miss plan now) esvc)) k
               = cacheManager esvc k)"
  proof
    assume a: "\<forall>k \<in> set (cachedKeys esvc). plan CmDel k \<noteq> ThrowsAtCall"
    note c = clear_deletes_expiring [of "cachedKeys esvc" plan miss now "cacheManager esvc", OF a]
    show "cachedKeys (snd (cache_clear (expiring_manager miss plan now) esvc)) = []
        \<and> (\<forall>k \<in> set (cachedKeys esvc).
             (plan CmDel k = Works \<or> plan CmDel k = RejectsAfterEffect \<longrightarrow>
                cacheManager (snd (cache_clear (expiring_manager miss plan now) esvc)) k = None)
             \<and> (plan CmDel k \<noteq> Works \<longrightarrow>
                  FailedToDelete k ''store unavailable''
                    \<in> set (logger (snd (cache_clear (expiring_manager miss plan now) esvc)))))
        \<and> (\<forall>k. k \<notin> set (cachedKeys esvc) \<longrightarrow>
             cacheManager (snd (cache_clear (expiring_manager miss plan now) esvc)) k
               = cacheManager esvc k)"
      by (auto simp: cache_clear_def c)
  qed
  have thrown: "(\<exists>k \<in> set (cachedKeys esvc). plan CmDel k = ThrowsAtCall) \<longrightarrow>
        cachedKeys (snd (cache_clear (expiring_manager miss plan now) esvc)) = cachedKeys esvc
        \<and> (\<exists>warnings.
             logger (snd (cache_clear (expiring_manager miss plan now) esvc))
               = logger esvc @ [ErrorClearing ''store unavailable''] @ warnings
             \<and> CacheCleared \<notin> set warnings)"
  proof
    assume a: "\<exists>k \<in> set (cachedKeys esvc). plan CmDel k = ThrowsAtCall"
    obtain st' lg where c: "clear_deletes (expiring_manager miss plan now) (cachedKeys esvc)
        (cacheManager esvc) = (Inl store_unavailable, st', lg)"
      using clear_deletes_expiring_throw
          [of "cachedKeys esvc" plan miss now "cacheManager esvc", OF a]
      by blast
    have "\<forall>l \<in> set lg. \<exists>k m. l = FailedToDelete k m"
      using clear_deletes_warnings [of "expiring_manager miss plan now" "cachedKeys esvc"
          "cacheManager esvc"] c by simp
    then have "CacheCleared \<notin> set lg"
      by auto
    moreover have "cachedKeys (snd (cache_clear (expiring_manager miss plan now) esvc))
        = cachedKeys esvc"
      by (simp add: cache_clear_def c)
    moreover have "logger (snd (cache_clear (expiring_manager miss plan now) esvc))
        = logger esvc @ [ErrorClearing ''store unavailable''] @ lg"
      by (simp add: cache_clear_def c store_unavailable_def errorMessage_def)
    ultimately show "cachedKeys (snd (cache_clear (expiring_manager miss plan now) esvc))
          = cachedKeys esvc
        \<and> (\<exists>warnings.
             logger (snd (cache_clear (expiring_manager miss plan now) esvc))
               = logger esvc @ [ErrorClearing ''store unavailable''] @ warnings
             \<and> CacheCleared \<notin> set warnings)"
      by blast
  qed
  show ?thesis
    by (rule conjI [OF returns conjI [OF no_throw conjI [OF first conjI [OF issued thrown]]]])
qed

theorem clear_resets_tracking_unless_a_delete_throws_witness:
  "cache_clear (expiring_manager JNull deletes_reject 0)
       \<lparr> namespace = ''taskflow:test:'', cachedKeys = [''taskflow:test:a'', ''taskflow:test:b''],
         cacheManager = [''taskflow:test:a'' \<mapsto> (JNum 1, 300000)], logger = [], js_heap = [] \<rparr>
     = (Inr (),
        \<lparr> namespace = ''taskflow:test:'', cachedKeys = [],
          cacheManager = [''taskflow:test:a'' \<mapsto> (JNum 1, 300000)],
          logger = [FailedToDelete ''taskflow:test:a'' ''store unavailable'',
                    FailedToDelete ''taskflow:test:b'' ''store unavailable'', CacheCleared],
          js_heap = [] \<rparr>)
   \<and> cache_clear (expiring_manager JNull no_faults 0)
       \<lparr> namespace = ''taskflow:test:'', cachedKeys = [''taskflow:test:a'', ''taskflow:test:b''],
         cacheManager = [''taskflow:test:a'' \<mapsto> (JNum 1, 300000)], logger = [], js_heap = [] \<rparr>
     = (Inr (),
        \<lparr> namespace = ''taskflow:test:'', cachedKeys = [], cacheManager = Map.empty,
          logger = [CacheCleared], js_heap = [] \<rparr>)
   \<and> cache_clear (expiring_manager JNull deletes_throw 0)
       \<lparr> namespace = ''taskflow:test:'', cachedKeys = [''taskflow:test:a'', ''taskflow:test:b''],
         cacheManager = [''taskflow:test:a'' \<mapsto> (JNum 1, 300000)], logger = [], js_heap = [] \<rparr>
     = (Inr (),
        \<lparr> namespace = ''taskflow:test:'', cachedKeys = [''taskflow:test:a'', ''taskflow:test:b''],
          cacheManager = [''taskflow:test:a'' \<mapsto> (JNum 1, 300000)],
          logger = [ErrorClearing ''store unavailable''], js_heap = [] \<rparr>)"
  using clear_resets_tracking_unless_a_delete_throws
    [of "expiring_manager JNull deletes_reject 0"
        "\<lparr> namespace = ''taskflow:test:'', cachedKeys = [''taskflow:test:a'', ''taskflow:test:b''],
           cacheManager = [''taskflow:test:a'' \<mapsto> (JNum 1, 300000)], logger = [], js_heap = [] \<rparr>"
        "\<lparr> namespace = ''taskflow:test:'', cachedKeys = [''taskflow:test:a'', ''taskflow:test:b''],
           cacheManager = [''taskflow:test:a'' \<mapsto> (JNum 1, 300000)], logger = [], js_heap = [] \<rparr>"
        no_faults JNull 0]
    clear_resets_tracking_unless_a_delete_throws
    [of "expiring_manager JNull deletes_throw 0"
        "\<lparr> namespace = ''taskflow:test:'', cachedKeys = [''taskflow:test:a'', ''taskflow:test:b''],
           cacheManager = [''taskflow:test:a'' \<mapsto> (JNum 1, 300000)], logger = [], js_heap = [] \<rparr>"
        "\<lparr> namespace = ''taskflow:test:'', cachedKeys = [''taskflow:test:a'', ''taskflow:test:b''],
           cacheManager = [''taskflow:test:a'' \<mapsto> (JNum 1, 300000)], logger = [], js_heap = [] \<rparr>"
        deletes_throw JNull 0]
  by (simp add: cache_clear_def expiring_simps fault_simps errorMessage_def fun_eq_iff)

text \<open>
  The claim as the specification words it fails when a delete fails: the key is still
  in the store after \<^verbatim>\<open>clear\<close>, and no longer tracked.
\<close>

theorem clear_failed_delete_counterexample:
  "''taskflow:test:a''
      \<in> set (cachedKeys (snd (cache_set (mem_manager JNull deletes_fail) (JStr ''a'') (JNum 1) 300
                              (new_CacheService (Some ''test'') Map.empty []))))
   \<and> fst (cache_clear (mem_manager JNull deletes_fail)
            (snd (cache_set (mem_manager JNull deletes_fail) (JStr ''a'') (JNum 1) 300
                    (new_CacheService (Some ''test'') Map.empty [])))) = Inr ()
   \<and> cacheManager (snd (cache_clear (mem_manager JNull deletes_fail)
            (snd (cache_set (mem_manager JNull deletes_fail) (JStr ''a'') (JNum 1) 300
                    (new_CacheService (Some ''test'') Map.empty [])))))
        ''taskflow:test:a'' = Some (JNum 1, 300000)
   \<and> cachedKeys (snd (cache_clear (mem_manager JNull deletes_fail)
            (snd (cache_set (mem_manager JNull deletes_fail) (JStr ''a'') (JNum 1) 300
                    (new_CacheService (Some ''test'') Map.empty []))))) = []"
  by (simp add: cache_defs new_CacheService_def mem_simps fault_simps errorMessage_def
      is_object_def Set_add_def)

subsection \<open>\<^verbatim>\<open>mget\<close> after \<^verbatim>\<open>mset\<close>\<close>

lemma answer_ok_extend:
  assumes "answer_ok miss st now ns h1 h2 k r"
  shows "answer_ok miss st now ns h1 (h2 @ ext) k r"
  using assms serialize_append [of h2 "[]" r _ ext]
  by (auto simp: answer_ok_def split: option.splits)

lemma answer_ok_earlier:
  assumes "answer_ok miss st now ns (h @ ext) h2 k r"
  shows "answer_ok miss st now ns h h2 k r"
  using assms serialize_append [of h "[]" _ _ ext]
  by (auto simp: answer_ok_def split: option.splits)

text \<open>
  \<^verbatim>\<open>get\<close> with a string key on the store with expiry: it returns, changes neither the
  namespace nor the store, only adds to the heap, and its answer is the one described
  by \<open>answer_ok\<close>.
\<close>

lemma get_reference:
  assumes "plan CmGet (namespace svc @ k) = Works" and "\<not> is_object miss"
  shows "\<exists>r svc' ext.
           cache_get (expiring_manager miss plan now) (JStr k) svc = (Inr r, svc')
         \<and> namespace svc' = namespace svc \<and> cacheManager svc' = cacheManager svc
         \<and> js_heap svc' = js_heap svc @ ext
         \<and> answer_ok miss (cacheManager svc) now (namespace svc) (js_heap svc) (js_heap svc') k r"
proof (cases "k = []")
  case True
  then show ?thesis
    by (auto simp: method_defs answer_ok_def)
next
  case k: False
  show ?thesis
  proof (cases "held (cacheManager svc) now (namespace svc @ k)")
    case None
    then show ?thesis
      using k assms
      by (auto simp: method_defs answer_ok_def expiring_simps)
  next
    case (Some v)
    show ?thesis
    proof (cases "is_object v")
      case False
      then show ?thesis
        using k assms Some
        by (auto simp: method_defs answer_ok_def expiring_simps)
    next
      case True
      then obtain b where v: "v = JRef b"
        by (cases v) (simp_all add: is_object_def)
      show ?thesis
      proof (cases "serialize (js_heap svc) [] (JRef b)")
        case None
        then show ?thesis
          using k assms \<open>held (cacheManager svc) now (namespace svc @ k) = Some v\<close> v
          by (auto simp: method_defs answer_ok_def expiring_simps is_object_def json_clone_def)
      next
        case (Some j)
        obtain c h' where c: "json_clone (js_heap svc) (JRef b) = Inr (JRef c, h')"
          "materialize j (js_heap svc) = (JRef c, h')" "serialize h' [] (JRef c) = Some j"
          using clone_of_object [OF Some] by blast
        obtain ext where ext: "h' = js_heap svc @ ext"
          using materialize_extends(1) [of j "js_heap svc"] c(2) by auto
        show ?thesis
          using k assms \<open>held (cacheManager svc) now (namespace svc @ k) = Some v\<close> v c(1,3) ext
            Some
          by (auto simp: method_defs answer_ok_def expiring_simps is_object_def)
      qed
    qed
  qed
qed

lemma mget_all_reference:
  assumes "\<forall>k \<in> set ks. plan CmGet (namespace svc @ k) = Works" and "\<not> is_object miss"
  shows "\<exists>rs svc' ext.
           mget_all (expiring_manager miss plan now) (map JStr ks) svc
             = (Inr (zip (map JStr ks) rs), svc')
         \<and> length rs = length ks
         \<and> namespace svc' = namespace svc \<and> cacheManager svc' = cacheManager svc
         \<and> js_heap svc' = js_heap svc @ ext
         \<and> (\<forall>(k, r) \<in> set (zip ks rs).
               answer_ok miss (cacheManager svc) now (namespace svc) (js_heap svc) (js_heap svc')
                 k r)"
  using assms(1)
proof (induction ks arbitrary: svc)
  case Nil
  show ?case by simp
next
  case (Cons k ks)
  let ?cm = "expiring_manager miss plan now"
  obtain r svc1 ext1 where g: "cache_get ?cm (JStr k) svc = (Inr r, svc1)"
    and ns1: "namespace svc1 = namespace svc" and cm1: "cacheManager svc1 = cacheManager svc"
    and h1: "js_heap svc1 = js_heap svc @ ext1"
    and ok1: "answer_ok miss (cacheManager svc) now (namespace svc) (js_heap svc) (js_heap svc1)
                k r"
    using get_reference [of plan svc k miss now] Cons.prems assms(2) by auto
  have "\<forall>k \<in> set ks. plan CmGet (namespace svc1 @ k) = Works"
    using Cons.prems ns1 by simp
  from Cons.IH [OF this] obtain rs svc2 ext2 where
    m: "mget_all ?cm (map JStr ks) svc1 = (Inr (zip (map JStr ks) rs), svc2)"
    and len: "length rs = length ks"
    and ns2: "namespace svc2 = namespace svc1" and cm2: "cacheManager svc2 = cacheManager svc1"
    and h2: "js_heap svc2 = js_heap svc1 @ ext2"
    and ok2: "\<forall>(k, r) \<in> set (zip ks rs).
               answer_ok miss (cacheManager svc1) now (namespace svc1) (js_heap svc1)
                 (js_heap svc2) k r"
    by blast
  have head: "answer_ok miss (cacheManager svc) now (namespace svc) (js_heap svc) (js_heap svc2)
                k r"
    using answer_ok_extend [OF ok1, of ext2] h2 by simp
  have tail: "\<forall>(k, r) \<in> set (zip ks rs).
               answer_ok miss (cacheManager svc) now (namespace svc) (js_heap svc) (js_heap svc2)
                 k r"
    using ok2
      answer_ok_earlier [of miss "cacheManager svc" now "namespace svc" "js_heap svc" ext1]
    by (auto simp: cm1 ns1 h1)
  have res: "mget_all ?cm (map JStr (k # ks)) svc
               = (Inr (zip (map JStr (k # ks)) (r # rs)), svc2)"
    by (simp add: g m)
  have heap: "js_heap svc2 = js_heap svc @ (ext1 @ ext2)"
    by (simp add: h2 h1)
  have all: "\<forall>(k', r') \<in> set (zip (k # ks) (r # rs)).
               answer_ok miss (cacheManager svc) now (namespace svc) (js_heap svc) (js_heap svc2)
                 k' r'"
    using head tail by simp
  have ns: "namespace svc2 = namespace svc" and cm: "cacheManager svc2 = cacheManager svc"
    by (simp_all add: ns1 ns2 cm1 cm2)
  have len': "length (r # rs) = length (k # ks)"
    by (simp add: len)
  show ?case
    by (rule exI [of _ "r # rs"], rule exI [of _ svc2], rule exI [of _ "ext1 @ ext2"])
       (intro conjI res len' ns cm heap all)
qed

lemma property_names_strings:
  "property_names h (zip (map JStr ks) rs) = Some (zip ks rs)"
proof (induction ks arbitrary: rs)
  case Nil
  show ?case by (simp add: property_names_def)
next
  case (Cons k ks)
  show ?case
  proof (cases rs)
    case Nil
    then show ?thesis by (simp add: property_names_def)
  next
    case (Cons r rs')
    then show ?thesis
      using Cons.IH [of rs'] by (simp add: property_names_def)
  qed
qed

lemma fromEntries_map_of: "fold (\<lambda>(k, v) m. m(k \<mapsto> v)) ps m0 = m0 ++ map_of (rev ps)"
proof (induction ps arbitrary: m0)
  case Nil
  show ?case by simp
next
  case (Cons p ps)
  obtain k v where p: "p = (k, v)" by (cases p)
  have "fold (\<lambda>(k, v) m. m(k \<mapsto> v)) (p # ps) m0
          = fold (\<lambda>(k, v) m. m(k \<mapsto> v)) ps (m0(k \<mapsto> v))"
    by (simp add: p)
  also have "\<dots> = m0(k \<mapsto> v) ++ map_of (rev ps)"
    by (rule Cons.IH)
  also have "\<dots> = m0 ++ (map_of [(k, v)] ++ map_of (rev ps))"
    by (auto simp: map_add_def fun_eq_iff split: option.splits)
  also have "\<dots> = m0 ++ map_of (rev (p # ps))"
    by (simp add: p)
  finally show ?case .
qed

lemma fromEntries_answers:
  assumes "\<forall>(k, r) \<in> set ps. P k r"
  shows "dom (fromEntries ps) = fst ` set ps"
    and "k \<in> fst ` set ps \<Longrightarrow> \<exists>r. fromEntries ps k = Some r \<and> P k r"
proof -
  have eq: "fromEntries ps = map_of (rev ps)"
    by (simp add: fromEntries_def fromEntries_map_of)
  show "dom (fromEntries ps) = fst ` set ps"
    by (simp add: eq dom_map_of_conv_image_fst)
  assume "k \<in> fst ` set ps"
  then have "k \<in> dom (map_of (rev ps))"
    by (simp add: dom_map_of_conv_image_fst)
  then obtain r where r: "map_of (rev ps) k = Some r"
    by auto
  then have "(k, r) \<in> set ps"
    using map_of_SomeD by fastforce
  with assms r show "\<exists>r. fromEntries ps k = Some r \<and> P k r"
    by (auto simp: eq)
qed

text \<open>
  \<^verbatim>\<open>set\<close> with a non-empty string key at the time \<open>t1\<close>: the store holds a copy of the
  value under the namespaced key until \<open>t1 + ttlSeconds * 1000\<close>.
\<close>

lemma set_reference:
  assumes "s \<noteq> []" and "plan CmSet (namespace svc @ s) = Works"
    and "is_object v \<longrightarrow> serialize (js_heap svc) [] v \<noteq> None"
  shows "\<exists>svc' w ext.
           cache_set (expiring_manager miss plan t1) (JStr s) v ttlSeconds svc = (Inr (), svc')
         \<and> namespace svc' = namespace svc \<and> js_heap svc' = js_heap svc @ ext
         \<and> cacheManager svc'
             = (cacheManager svc)(namespace svc @ s \<mapsto> (w, t1 + ttlSeconds * 1000))
         \<and> copy_of (js_heap svc) v (js_heap svc') w"
proof (cases "is_object v")
  case False
  then show ?thesis
    using assms(1,2)
    by (auto simp: method_defs expiring_simps copy_of_def)
next
  case True
  then obtain a where v: "v = JRef a"
    by (cases v) (simp_all add: is_object_def)
  obtain j where j: "serialize (js_heap svc) [] (JRef a) = Some j"
    using assms(3) True v by auto
  obtain b h1 where c: "json_clone (js_heap svc) (JRef a) = Inr (JRef b, h1)"
      "materialize j (js_heap svc) = (JRef b, h1)" "serialize h1 [] (JRef b) = Some j"
    using clone_of_object [OF j] by blast
  obtain ext where ext: "h1 = js_heap svc @ ext"
    using materialize_extends(1) [of j "js_heap svc"] c(2) by auto
  show ?thesis
    using assms(1,2) c(1,3) j ext
    by (auto simp: method_defs expiring_simps copy_of_def is_object_def v)
qed

lemma copy_of_extend:
  assumes "copy_of h v h' w" and "is_object v \<longrightarrow> serialize h [] v \<noteq> None"
  shows "copy_of h v (h' @ ext) w"
  using assms serialize_append [of h' "[]" w _ ext]
  by (auto simp: copy_of_def)

lemma copy_of_earlier:
  assumes "copy_of (h @ ext) v h' w" and "is_object v \<longrightarrow> serialize h [] v \<noteq> None"
  shows "copy_of h v h' w"
  using assms serialize_append [of h "[]" v _ ext]
  by (auto simp: copy_of_def)

lemma serializable_later:
  assumes "is_object v \<longrightarrow> serialize h [] v \<noteq> None"
  shows "is_object v \<longrightarrow> serialize (h @ ext) [] v \<noteq> None"
  using assms serialize_append [of h "[]" v _ ext] by auto

text \<open>
  \<^verbatim>\<open>mset\<close> with non-empty string keys: for each logical key the store holds a copy of
  the value of the last pair with that key; the other keys are as they were.
\<close>

lemma mset_all_reference:
  assumes "\<forall>(s, v) \<in> set ses. s \<noteq> [] \<and> plan CmSet (namespace svc @ s) = Works
              \<and> (is_object v \<longrightarrow> serialize (js_heap svc) [] v \<noteq> None)"
  shows "\<exists>svc' ext.
           mset_all (expiring_manager miss plan t1) (map (\<lambda>(s, v). Entry (JStr s) v) ses)
               ttlSeconds svc
             = (Resolved (), svc')
         \<and> namespace svc' = namespace svc \<and> js_heap svc' = js_heap svc @ ext
         \<and> (\<forall>k. case map_of (rev ses) k of
                  None \<Rightarrow> cacheManager svc' (namespace svc @ k) = cacheManager svc (namespace svc @ k)
                | Some v \<Rightarrow>
                    (\<exists>w. cacheManager svc' (namespace svc @ k)
                            = Some (w, t1 + ttlSeconds * 1000)
                         \<and> copy_of (js_heap svc) v (js_heap svc') w))"
  using assms
proof (induction ses arbitrary: svc)
  case Nil
  show ?case by simp
next
  case (Cons e ses)
  let ?cm = "expiring_manager miss plan t1"
  obtain s v where e: "e = (s, v)" by (cases e)
  have sv: "s \<noteq> []" "plan CmSet (namespace svc @ s) = Works"
    "is_object v \<longrightarrow> serialize (js_heap svc) [] v \<noteq> None"
    using Cons.prems by (auto simp: e)
  obtain svc1 w ext1 where
    st: "cache_set ?cm (JStr s) v ttlSeconds svc = (Inr (), svc1)"
    and ns1: "namespace svc1 = namespace svc" and h1: "js_heap svc1 = js_heap svc @ ext1"
    and cm1: "cacheManager svc1
                = (cacheManager svc)(namespace svc @ s \<mapsto> (w, t1 + ttlSeconds * 1000))"
    and w: "copy_of (js_heap svc) v (js_heap svc1) w"
    using set_reference [of s plan svc v miss t1 ttlSeconds] sv by blast
  have later: "\<forall>(s, v) \<in> set ses. s \<noteq> [] \<and> plan CmSet (namespace svc1 @ s) = Works
              \<and> (is_object v \<longrightarrow> serialize (js_heap svc1) [] v \<noteq> None)"
    using Cons.prems serializable_later [of _ "js_heap svc" ext1] by (auto simp: ns1 h1)
  from Cons.IH [OF later] obtain svc' ext2 where
    m: "mset_all ?cm (map (\<lambda>(s, v). Entry (JStr s) v) ses) ttlSeconds svc1 = (Resolved (), svc')"
    and ns': "namespace svc' = namespace svc1" and h': "js_heap svc' = js_heap svc1 @ ext2"
    and cm': "\<forall>k. case map_of (rev ses) k of
                  None \<Rightarrow> cacheManager svc' (namespace svc1 @ k) = cacheManager svc1 (namespace svc1 @ k)
                | Some v \<Rightarrow>
                    (\<exists>w. cacheManager svc' (namespace svc1 @ k)
                            = Some (w, t1 + ttlSeconds * 1000)
                         \<and> copy_of (js_heap svc1) v (js_heap svc') w)"
    by blast
  have res: "mset_all ?cm (map (\<lambda>(s, v). Entry (JStr s) v) (e # ses)) ttlSeconds svc
             = (Resolved (), svc')"
    by (simp add: e st m)
  have heap: "js_heap svc' = js_heap svc @ (ext1 @ ext2)"
    by (simp add: h' h1)
  have "case map_of (rev (e # ses)) k of
                  None \<Rightarrow> cacheManager svc' (namespace svc @ k) = cacheManager svc (namespace svc @ k)
                | Some v \<Rightarrow>
                    (\<exists>w. cacheManager svc' (namespace svc @ k)
                            = Some (w, t1 + ttlSeconds * 1000)
                         \<and> copy_of (js_heap svc) v (js_heap svc') w)" for k
  proof (cases "map_of (rev ses) k")
    case None
    show ?thesis
    proof (cases "k = s")
      case True
      have "copy_of (js_heap svc) v (js_heap svc') w"
        using copy_of_extend [OF w sv(3), of ext2] by (simp add: h')
      then show ?thesis
        using cm' [rule_format, of k] None True by (simp add: e ns1 cm1 map_add_def)
    next
      case False
      then show ?thesis
        using cm' [rule_format, of k] None by (simp add: e ns1 cm1 map_add_def)
    qed
  next
    case (Some v')
    then have "(k, v') \<in> set ses"
      using map_of_SomeD by fastforce
    then have ser: "is_object v' \<longrightarrow> serialize (js_heap svc) [] v' \<noteq> None"
      using Cons.prems by auto
    obtain w' where w': "cacheManager svc' (namespace svc @ k) = Some (w', t1 + ttlSeconds * 1000)"
      "copy_of (js_heap svc1) v' (js_heap svc') w'"
      using cm' [rule_format, of k] Some by (auto simp: ns1)
    have "copy_of (js_heap svc) v' (js_heap svc') w'"
      using copy_of_earlier [of "js_heap svc" ext1 v' "js_heap svc'" w'] w'(2) ser
      by (simp add: h1)
    then show ?thesis
      using w'(1) Some by (simp add: e map_add_def)
  qed
  then have cm: "\<forall>k. case map_of (rev (e # ses)) k of
                  None \<Rightarrow> cacheManager svc' (namespace svc @ k) = cacheManager svc (namespace svc @ k)
                | Some v \<Rightarrow>
                    (\<exists>w. cacheManager svc' (namespace svc @ k)
                            = Some (w, t1 + ttlSeconds * 1000)
                         \<and> copy_of (js_heap svc) v (js_heap svc') w)"
    by (rule allI)
  have ns: "namespace svc' = namespace svc"
    by (simp add: ns' ns1)
  show ?case
    by (rule exI [of _ svc'], rule exI [of _ "ext1 @ ext2"]) (intro conjI res ns heap cm)
qed

lemma serialized_object_is_ref:
  assumes "serialize h stk r = Some j" and "(\<exists>js. j = JsArr js) \<or> (\<exists>fs. j = JsObj fs)"
  shows "is_object r"
  using assms by (cases r) (auto simp: is_object_def)

lemma answer_copy:
  assumes "answer_ok miss st now ns h1 h2 k r" and "k \<noteq> []"
    and "held st now (ns @ k) = Some w"
    and "copy_of h v h1 w" and "is_object v \<longrightarrow> serialize h [] v \<noteq> None"
  shows "copy_of h v h2 r"
proof (cases "is_object v")
  case False
  then show ?thesis
    using assms by (auto simp: answer_ok_def copy_of_def)
next
  case True
  then obtain a where v: "v = JRef a"
    by (cases v) (simp_all add: is_object_def)
  obtain j where j: "serialize h [] v = Some j"
    using assms(5) True by auto
  have w: "is_object w" "serialize h1 [] w = Some j"
    using assms(4) True j by (simp_all add: copy_of_def)
  have r: "serialize h2 [] r = Some j"
    using assms(1,2,3) w by (simp add: answer_ok_def)
  have "is_object r"
    using serialized_object_is_ref [OF r] serialize_ref_shape [of h "[]" a j] j v by simp
  then show ?thesis
    using True r j by (simp add: copy_of_def)
qed

text \<open>
  Claim C8, as the code has it, on the store with expiry whose miss value \<open>miss\<close> is
  not an object (\<^verbatim>\<open>null\<close> or \<^verbatim>\<open>undefined\<close>). \<^verbatim>\<open>mset\<close> is called at the time \<open>t1\<close> with pairs
  of non-empty string keys and values that JSON can write, \<^verbatim>\<open>mget\<close> at the time \<open>t2\<close> with
  string keys, and no store operation on these keys fails. Then both return, and the
  record \<^verbatim>\<open>mget\<close> returns has exactly the given keys, un-namespaced, where

  \<^item> the empty key maps to \<^verbatim>\<open>null\<close> (its \<^verbatim>\<open>get\<close> failed and was logged);
  \<^item> a key of \<^verbatim>\<open>mset\<close> maps to a copy of the value of its last pair (the same primitive,
    or an object with the same JSON value) while \<open>t2 < t1 + ttlSeconds * 1000\<close>, and to
    \<open>miss\<close> once the time to live has run out;
  \<^item> any other key maps to \<open>miss\<close> when the store does not hold it at \<open>t2\<close> (it was never
    set, or has expired), and to a copy of the value the store holds otherwise.
\<close>

theorem mget_after_mset:
  assumes sets: "\<forall>(s, v) \<in> set ses. s \<noteq> [] \<and> plan CmSet (namespace svc @ s) = Works
                   \<and> (is_object v \<longrightarrow> serialize (js_heap svc) [] v \<noteq> None)"
    and gets: "\<forall>k \<in> set ks. plan CmGet (namespace svc @ k) = Works"
    and prim: "\<not> is_object miss"
  shows "\<exists>svc1 m svc2.
           cache_mset (expiring_manager miss plan t1)
               (ArrayOf (map (\<lambda>(s, v). Entry (JStr s) v) ses)) ttlSeconds svc = (Inr (), svc1)
         \<and> cache_mget (expiring_manager miss plan t2) (ArrayOf (map JStr ks)) svc1
             = (Inr m, svc2)
         \<and> dom m = set ks
         \<and> (\<forall>k \<in> set ks. \<exists>r. m k = Some r \<and>
               (if k = [] then r = JNull
                else (case map_of (rev ses) k of
                        Some v \<Rightarrow>
                          if t2 < t1 + ttlSeconds * 1000
                          then copy_of (js_heap svc) v (js_heap svc2) r
                          else r = miss
                      | None \<Rightarrow>
                          (case held (cacheManager svc) t2 (namespace svc @ k) of
                             None \<Rightarrow> r = miss
                           | Some v \<Rightarrow>
                               (is_object v \<longrightarrow> serialize (js_heap svc) [] v \<noteq> None) \<longrightarrow>
                               copy_of (js_heap svc) v (js_heap svc2) r))))"
proof -
  let ?cm1 = "expiring_manager miss plan t1"
  let ?cm2 = "expiring_manager miss plan t2"
  let ?ns = "namespace svc"
  obtain svc1 ext1 where
    ms: "mset_all ?cm1 (map (\<lambda>(s, v). Entry (JStr s) v) ses) ttlSeconds svc = (Resolved (), svc1)"
    and ns1: "namespace svc1 = ?ns" and h1: "js_heap svc1 = js_heap svc @ ext1"
    and cm1: "\<forall>k. case map_of (rev ses) k of
                  None \<Rightarrow> cacheManager svc1 (?ns @ k) = cacheManager svc (?ns @ k)
                | Some v \<Rightarrow>
                    (\<exists>w. cacheManager svc1 (?ns @ k) = Some (w, t1 + ttlSeconds * 1000)
                         \<and> copy_of (js_heap svc) v (js_heap svc1) w)"
    using mset_all_reference [of ses plan svc miss t1 ttlSeconds] sets by blast
  have gets1: "\<forall>k \<in> set ks. plan CmGet (namespace svc1 @ k) = Works"
    using gets by (simp add: ns1)
  obtain rs svc2 where mg: "mget_all ?cm2 (map JStr ks) svc1 = (Inr (zip (map JStr ks) rs), svc2)"
    and len: "length rs = length ks"
    and ok: "\<forall>(k, r) \<in> set (zip ks rs).
               answer_ok miss (cacheManager svc1) t2 (namespace svc1) (js_heap svc1)
                 (js_heap svc2) k r"
    using mget_all_reference [of ks plan svc1 miss t2] gets1 prim by blast
  let ?ps = "zip ks rs"
  have img: "fst ` set ?ps = set ks"
    using len by (metis map_fst_zip set_map)
  have r1: "cache_mset ?cm1 (ArrayOf (map (\<lambda>(s, v). Entry (JStr s) v) ses)) ttlSeconds svc
              = (Inr (), svc1)"
    by (simp add: cache_mset_def ms awaited_def)
  have r2: "cache_mget ?cm2 (ArrayOf (map JStr ks)) svc1 = (Inr (fromEntries ?ps), svc2)"
    by (simp add: cache_mget_def mg property_names_strings)
  have d: "dom (fromEntries ?ps) = set ks"
    using fromEntries_answers(1) [OF ok] img by simp
  have a: "\<exists>r. fromEntries ?ps k = Some r \<and>
               (if k = [] then r = JNull
                else (case map_of (rev ses) k of
                        Some v \<Rightarrow>
                          if t2 < t1 + ttlSeconds * 1000
                          then copy_of (js_heap svc) v (js_heap svc2) r
                          else r = miss
                      | None \<Rightarrow>
                          (case held (cacheManager svc) t2 (?ns @ k) of
                             None \<Rightarrow> r = miss
                           | Some v \<Rightarrow>
                               (is_object v \<longrightarrow> serialize (js_heap svc) [] v \<noteq> None) \<longrightarrow>
                               copy_of (js_heap svc) v (js_heap svc2) r)))"
    if k: "k \<in> set ks" for k
  proof -
    obtain r where r: "fromEntries ?ps k = Some r"
      and ans: "answer_ok miss (cacheManager svc1) t2 ?ns (js_heap svc1) (js_heap svc2) k r"
      using fromEntries_answers(2) [OF ok, of k] img k by (auto simp: ns1)
    have "if k = [] then r = JNull
                else (case map_of (rev ses) k of
                        Some v \<Rightarrow>
                          if t2 < t1 + ttlSeconds * 1000
                          then copy_of (js_heap svc) v (js_heap svc2) r
                          else r = miss
                      | None \<Rightarrow>
                          (case held (cacheManager svc) t2 (?ns @ k) of
                             None \<Rightarrow> r = miss
                           | Some v \<Rightarrow>
                               (is_object v \<longrightarrow> serialize (js_heap svc) [] v \<noteq> None) \<longrightarrow>
                               copy_of (js_heap svc) v (js_heap svc2) r))"
    proof (cases "k = []")
      case True
      then show ?thesis using ans by (simp add: answer_ok_def)
    next
      case ne: False
      show ?thesis
      proof (cases "map_of (rev ses) k")
        case (Some v)
        then have "(k, v) \<in> set ses"
          using map_of_SomeD by fastforce
        then have ser: "is_object v \<longrightarrow> serialize (js_heap svc) [] v \<noteq> None"
          using sets by auto
        obtain w where w: "cacheManager svc1 (?ns @ k) = Some (w, t1 + ttlSeconds * 1000)"
          "copy_of (js_heap svc) v (js_heap svc1) w"
          using cm1 [rule_format, of k] Some by auto
        show ?thesis
        proof (cases "t2 < t1 + ttlSeconds * 1000")
          case True
          then have "held (cacheManager svc1) t2 (?ns @ k) = Some w"
            using w(1) by (simp add: held_def)
          then have "copy_of (js_heap svc) v (js_heap svc2) r"
            using answer_copy [OF ans ne _ w(2) ser] by simp
          then show ?thesis using ne Some True by simp
        next
          case False
          then have "held (cacheManager svc1) t2 (?ns @ k) = None"
            using w(1) by (simp add: held_def)
          then have "r = miss"
            using ans ne by (simp add: answer_ok_def)
          then show ?thesis using ne Some False by simp
        qed
      next
        case None
        then have same: "cacheManager svc1 (?ns @ k) = cacheManager svc (?ns @ k)"
          using cm1 [rule_format, of k] by simp
        then have held_same: "held (cacheManager svc1) t2 (?ns @ k)
            = held (cacheManager svc) t2 (?ns @ k)"
          by (simp add: held_def)
        show ?thesis
        proof (cases "held (cacheManager svc) t2 (?ns @ k)")
          case None
          then show ?thesis
            using ans ne held_same \<open>map_of (rev ses) k = None\<close> by (simp add: answer_ok_def)
        next
          case (Some v)
          have "copy_of (js_heap svc) v (js_heap svc2) r"
            if ser: "is_object v \<longrightarrow> serialize (js_heap svc) [] v \<noteq> None"
          proof -
            have "copy_of (js_heap svc) v (js_heap svc1) v"
              using ser serialize_append [of "js_heap svc" "[]" v _ ext1]
              by (auto simp: copy_of_def h1)
            then show ?thesis
              using answer_copy [OF ans ne _ _ ser, of v] held_same Some by simp
          qed
          then show ?thesis
            using ne Some \<open>map_of (rev ses) k = None\<close> by simp
        qed
      qed
    qed
    with r show ?thesis by blast
  qed
  show ?thesis
    by (rule exI [of _ svc1], rule exI [of _ "fromEntries ?ps"], rule exI [of _ svc2])
       (use r1 r2 d a in blast)
qed

theorem mget_after_mset_witness:
  "cache_mset (expiring_manager JNull no_faults 0)
       (ArrayOf [Entry (JStr ''a'') (JNum 1), Entry (JStr ''b'') (JNum 2)]) 300
       (new_CacheService (Some ''test'') Map.empty [])
     = (Inr (),
        \<lparr> namespace = ''taskflow:test:'', cachedKeys = [''taskflow:test:a'', ''taskflow:test:b''],
          cacheManager = [''taskflow:test:a'' \<mapsto> (JNum 1, 300000),
                          ''taskflow:test:b'' \<mapsto> (JNum 2, 300000)],
          logger = [CacheSet ''taskflow:test:a'' 300, CacheSet ''taskflow:test:b'' 300],
          js_heap = [] \<rparr>)
   \<and> fst (cache_mget (expiring_manager JNull no_faults 1000)
            (ArrayOf [JStr ''a'', JStr ''b'', JStr ''c''])
        \<lparr> namespace = ''taskflow:test:'', cachedKeys = [''taskflow:test:a'', ''taskflow:test:b''],
          cacheManager = [''taskflow:test:a'' \<mapsto> (JNum 1, 300000),
                          ''taskflow:test:b'' \<mapsto> (JNum 2, 300000)],
          logger = [CacheSet ''taskflow:test:a'' 300, CacheSet ''taskflow:test:b'' 300],
          js_heap = [] \<rparr>)
     = Inr [''a'' \<mapsto> JNum 1, ''b'' \<mapsto> JNum 2, ''c'' \<mapsto> JNull]
   \<and> fst (cache_mget (expiring_manager JNull no_faults 300000)
            (ArrayOf [JStr ''a'', JStr ''b'', JStr ''c''])
        \<lparr> namespace = ''taskflow:test:'', cachedKeys = [''taskflow:test:a'', ''taskflow:test:b''],
          cacheManager = [''taskflow:test:a'' \<mapsto> (JNum 1, 300000),
                          ''taskflow:test:b'' \<mapsto> (JNum 2, 300000)],
          logger = [CacheSet ''taskflow:test:a'' 300, CacheSet ''taskflow:test:b'' 300],
          js_heap = [] \<rparr>)
     = Inr [''a'' \<mapsto> JNull, ''b'' \<mapsto> JNull, ''c'' \<mapsto> JNull]"
  using mget_after_mset
    [of "[(''a'', JNum 1), (''b'', JNum 2)]" no_faults
        "new_CacheService (Some ''test'') Map.empty []" "[''a'', ''b'', ''c'']" JNull 0 300 1000]
  by (simp add: cache_defs cache_mset_def cache_mget_def fromEntries_def property_names_def
      new_CacheService_def expiring_simps fault_simps is_object_def Set_add_def held_def)

text \<open>
  The claim as the specification words it fails on a store whose miss value is
  \<^verbatim>\<open>undefined\<close>: after \<^verbatim>\<open>mset([["a",1],["b",2]])\<close>, \<^verbatim>\<open>mget(["a","b","c"])\<close> returns
  \<^verbatim>\<open>{a:1, b:2, c:undefined}\<close>.
\<close>

theorem mget_unset_key_counterexample:
  "fst (cache_mget (expiring_manager JUndefined no_faults 1000)
          (ArrayOf [JStr ''a'', JStr ''b'', JStr ''c''])
          (snd (cache_mset (expiring_manager JUndefined no_faults 0)
                  (ArrayOf [Entry (JStr ''a'') (JNum 1), Entry (JStr ''b'') (JNum 2)]) 300
                  (new_CacheService (Some ''test'') Map.empty []))))
     = Inr [''a'' \<mapsto> JNum 1, ''b'' \<mapsto> JNum 2, ''c'' \<mapsto> JUndefined]
   \<and> [''a'' \<mapsto> JNum 1, ''b'' \<mapsto> JNum 2, ''c'' \<mapsto> JUndefined] ''c'' \<noteq> Some JNull"
  by (simp add: cache_defs cache_mset_def cache_mget_def fromEntries_def property_names_def
      new_CacheService_def expiring_simps fault_simps is_object_def Set_add_def held_def)

end
